theory Spec2Isabelle
  imports Main "HOL-Library.Word" "HOL-Library.Signed_Division"
begin

unbundle bit_operations_syntax

section \<open>The ROHC sniffer (app/sniffer/sniffer.c)\<close>

text \<open>
  A shallow embedding of the sniffer's RTP detection callback, its packet comparator,
  its ring buffer of library traces, its compress/decompress pipeline and the body of its
  capture loop. Buffers are byte lists, the global variables and the two output streams
  are fields of one record that every function takes and returns, the ROHC library and
  the PCAP dump files are parameters.
\<close>

subsection \<open>Bytes, byte order and the 16-bit fields of network headers\<close>

type_synonym byte = "8 word"

text \<open>
  The byte order of the host the sniffer runs on. \<open>memcpy\<close> into a \<open>uint16_t\<close> and a
  read through a header struct both load two bytes in host order.
\<close>

datatype byte_order = LittleEndian | BigEndian

definition load_u16 :: "byte_order \<Rightarrow> byte list \<Rightarrow> nat \<Rightarrow> 16 word" where
  "load_u16 bo buf off =
     (case bo of
        LittleEndian \<Rightarrow> ucast (buf ! off) OR push_bit 8 (ucast (buf ! (off + 1)))
      | BigEndian \<Rightarrow> push_bit 8 (ucast (buf ! off)) OR ucast (buf ! (off + 1)))"

text \<open>
  \<open>ntohs\<close> belongs to the C library, not to the sniffer: it is taken with its standard
  meaning, the conversion of a 16-bit value from network (big-endian) to host byte order,
  which is the identity on a big-endian host and a swap of the two bytes on a
  little-endian one.
\<close>

definition ntohs :: "byte_order \<Rightarrow> 16 word \<Rightarrow> 16 word" where
  "ntohs bo x =
     (case bo of
        LittleEndian \<Rightarrow> push_bit 8 x OR drop_bit 8 x
      | BigEndian \<Rightarrow> x)"

text \<open>
  The eight bytes of a UDP header as they are on the wire: source port, destination port,
  length (header plus payload) and checksum, each in network byte order.
\<close>

definition udp_hdr :: "16 word \<Rightarrow> 16 word \<Rightarrow> 16 word \<Rightarrow> 16 word \<Rightarrow> byte list" where
  "udp_hdr sport dport ulen cksum =
     [ucast (drop_bit 8 sport), ucast sport,
      ucast (drop_bit 8 dport), ucast dport,
      ucast (drop_bit 8 ulen), ucast ulen,
      ucast (drop_bit 8 cksum), ucast cksum]"

subsection \<open>The RTP detection callback\<close>

text \<open>
  \<open>rtp_detect_cb\<close>: \<open>udp\<close> points at the UDP header, \<open>payload\<close> and \<open>payload_size\<close> are the
  list and its length. The \<open>ip\<close> and \<open>rtp_private\<close> arguments are only asserted non-null
  and null. Every \<open>goto not_rtp\<close> is a branch that returns False.
\<close>

definition rtp_detect_cb :: "byte_order \<Rightarrow> byte list \<Rightarrow> byte list \<Rightarrow> bool" where
  "rtp_detect_cb bo udp payload =
     (let sip_port = (5060 :: 16 word);
          udp_sport = load_u16 bo udp 0;
          udp_dport = load_u16 bo udp 2;
          udp_len = load_u16 bo udp 4
      in if ntohs bo udp_sport = sip_port \<and> ntohs bo udp_dport = sip_port then False
         else if udp_dport mod 2 \<noteq> 0 then False
         else if ntohs bo udp_len > 200 then False
         else if length payload < 12 then False
         else if (drop_bit 6 (payload ! 0)) AND 0x3 \<noteq> 0x2 then False
         else let rtp_pt = (payload ! 1) AND 0x7f
              in if rtp_pt \<noteq> 0x03 \<and> rtp_pt \<noteq> 0x04 \<and> rtp_pt \<noteq> 0x12 \<and> rtp_pt \<noteq> 0x65
                 then False
                 else True)"

text \<open>
  The decision rule as the specification words it, for comparison with the callback: the
  ports are not both 5060, the destination port is even, the UDP payload is at most 200
  bytes and at least 12 bytes long, the top two bits of its first byte are binary 10 and
  the low seven bits of its second byte are one of the allowed payload types.
\<close>

definition looks_like_rtp_spec :: "16 word \<Rightarrow> 16 word \<Rightarrow> byte list \<Rightarrow> bool" where
  "looks_like_rtp_spec sport dport payload \<longleftrightarrow>
     \<not> (sport = 5060 \<and> dport = 5060) \<and>
     even (unat dport) \<and>
     length payload \<le> 200 \<and>
     12 \<le> length payload \<and>
     drop_bit 6 (payload ! 0) = 2 \<and>
     (payload ! 1) AND 0x7f \<in> {0x03, 0x04, 0x12, 0x65}"

subsection \<open>Text written by the printf family\<close>

text \<open>
  A stream is the list of the texts written to it, one entry per call of \<open>printf\<close> or
  \<open>fprintf\<close>, oldest first; the bytes on the stream are their concatenation. The
  conversions the sniffer uses are \<open>%u\<close>, \<open>%d\<close>, \<open>%.2x\<close>, \<open>%c\<close> and \<open>%s\<close>.
\<close>

definition nl :: string where
  "nl = [CHR 0x0A]"

definition tab :: string where
  "tab = [CHR 0x09]"

definition digit_char :: "nat \<Rightarrow> char" where
  "digit_char d = ''0123456789abcdef'' ! d"

function show_nat :: "nat \<Rightarrow> string" where
  "show_nat n = (if n < 10 then [digit_char n] else show_nat (n div 10) @ [digit_char (n mod 10)])"
  by pat_completeness auto
termination
  by (relation "measure id") auto

declare show_nat.simps [simp del]

definition show_int :: "int \<Rightarrow> string" where
  "show_int i = (if i < 0 then CHR ''-'' # show_nat (nat (- i)) else show_nat (nat i))"

definition show_hex2 :: "byte \<Rightarrow> string" where
  "show_hex2 b = [digit_char (unat b div 16), digit_char (unat b mod 16)]"

text \<open>
  The number that a string of decimal digits stands for, and the one that a string of
  lowercase hexadecimal digits stands for: they read back what the conversions printed.
\<close>

definition dec_value :: "string \<Rightarrow> nat" where
  "dec_value s = foldl (\<lambda>a c. 10 * a + (of_char c - 48)) 0 s"

definition hex_value :: "string \<Rightarrow> nat" where
  "hex_value s =
     foldl (\<lambda>a c. 16 * a + (if (of_char c :: nat) < 58 then of_char c - 48 else of_char c - 87)) 0 s"

subsection \<open>Global variables and output streams\<close>

text \<open>
  The file's global variables, the two output streams, and what the process has done to
  its dump files and asked of the ROHC library. \<open>last_traces\<close> has \<open>MAX_LAST_TRACES\<close>
  slots; the two cursors are -1 until the first trace is recorded.
\<close>

definition MAX_LAST_TRACES :: nat where
  "MAX_LAST_TRACES = 5000"

definition MAX_TRACE_LEN :: nat where
  "MAX_TRACE_LEN = 300"

text \<open>
  The header of a captured packet: only the two lengths are read. The timestamp of
  \<open>struct pcap_pkthdr\<close> is carried along untouched and left out.
\<close>

record pcap_pkthdr =
  caplen :: "32 word"
  len :: "32 word"

text \<open>A dump file handle, named after the file it was opened on.\<close>

datatype pcap_dumper = Dumper string

text \<open>What the process did to the dump files, in order.\<close>

datatype dump_op =
    Pcap_dump_open string
  | Pcap_dump pcap_dumper pcap_pkthdr "byte list"
  | Pcap_dump_close pcap_dumper
  | Unlink string

text \<open>
  The calls the process made into the ROHC library, in order, each with the buffer and
  the size it passed.
\<close>

datatype lib_call =
    Rohc_compress "byte list" int
  | Rohc_comp_get_last_packet_info2
  | Rohc_decompress "byte list" int

record world =
  stop_program :: bool
  is_verbose :: bool
  last_traces :: "string list"
  last_traces_first :: int
  last_traces_last :: int
  stdout :: "string list"
  stderr :: "string list"
  dump_ops :: "dump_op list"
  lib_calls :: "lib_call list"

text \<open>The globals as \<open>main\<close> leaves them before it calls \<open>sniff\<close>.\<close>

definition initial_world :: "bool \<Rightarrow> world" where
  "initial_world verbose =
     \<lparr> stop_program = False,
       is_verbose = verbose,
       last_traces = replicate MAX_LAST_TRACES [],
       last_traces_first = -1,
       last_traces_last = -1,
       stdout = [],
       stderr = [],
       dump_ops = [],
       lib_calls = [] \<rparr>"

definition printf :: "string \<Rightarrow> world \<Rightarrow> world" where
  "printf txt w = w\<lparr>stdout := stdout w @ [txt]\<rparr>"

definition eprintf :: "string \<Rightarrow> world \<Rightarrow> world" where
  "eprintf txt w = w\<lparr>stderr := stderr w @ [txt]\<rparr>"

subsection \<open>The ring buffer of the last traces\<close>

text \<open>
  Modelled from the spec: the trace levels, an enumeration of the library's header
  \<open>rohc.h\<close> which is not part of the sniffer's source, in increasing severity. The
  callback echoes a trace at once when its level is warning or higher, and the
  designated initialisers of \<open>level_descrs\<close> name the four levels.
\<close>

datatype rohc_trace_level =
  ROHC_TRACE_DEBUG | ROHC_TRACE_INFO | ROHC_TRACE_WARNING | ROHC_TRACE_ERROR

fun level_rank :: "rohc_trace_level \<Rightarrow> nat" where
  "level_rank ROHC_TRACE_DEBUG = 0"
| "level_rank ROHC_TRACE_INFO = 1"
| "level_rank ROHC_TRACE_WARNING = 2"
| "level_rank ROHC_TRACE_ERROR = 3"

fun level_descrs :: "rohc_trace_level \<Rightarrow> string" where
  "level_descrs ROHC_TRACE_DEBUG = ''DEBUG''"
| "level_descrs ROHC_TRACE_INFO = ''INFO''"
| "level_descrs ROHC_TRACE_WARNING = ''WARNING''"
| "level_descrs ROHC_TRACE_ERROR = ''ERROR''"

text \<open>
  \<open>print_rohc_traces\<close>: \<open>msg\<close> is the text that the format string and its arguments
  expand to. \<open>vsnprintf\<close> with size \<open>MAX_TRACE_LEN + 1\<close> stores its first \<open>MAX_TRACE_LEN\<close>
  characters in the slot. The \<open>%\<close> of C truncates towards zero, as \<open>smod\<close> does.
\<close>

definition print_rohc_traces :: "rohc_trace_level \<Rightarrow> string \<Rightarrow> world \<Rightarrow> world" where
  "print_rohc_traces level msg w =
     (let w1 = (if level_rank level \<ge> level_rank ROHC_TRACE_WARNING \<or> is_verbose w
                then printf msg (printf (''['' @ level_descrs level @ ''] '') w)
                else w);
          w2 = (if last_traces_last w1 = -1
                then w1\<lparr>last_traces_last := 0\<rparr>
                else w1\<lparr>last_traces_last :=
                        (last_traces_last w1 + 1) smod int MAX_LAST_TRACES\<rparr>);
          w3 = w2\<lparr>last_traces :=
                    (last_traces w2)[nat (last_traces_last w2) := take MAX_TRACE_LEN msg]\<rparr>
      in if last_traces_first w3 = -1
         then w3\<lparr>last_traces_first := 0\<rparr>
         else if last_traces_first w3 = last_traces_last w3
         then w3\<lparr>last_traces_first :=
                   (last_traces_first w3 + 1) smod int MAX_LAST_TRACES\<rparr>
         else w3)"

text \<open>The traces of one call into the library, recorded in the order they were emitted.\<close>

fun record_traces :: "(rohc_trace_level \<times> string) list \<Rightarrow> world \<Rightarrow> world" where
  "record_traces [] w = w"
| "record_traces ((level, msg) # ts) w = record_traces ts (print_rohc_traces level msg w)"

text \<open>
  The two loops of \<open>sniff\<close> that print the recorded traces on the error stream:
  \<open>for(i = first; i <= last; i++)\<close> indexes the buffer with \<open>i\<close>, the loop for a wrapped
  buffer with \<open>i % MAX_LAST_TRACES\<close>.
\<close>

function print_traces_upto :: "int \<Rightarrow> int \<Rightarrow> world \<Rightarrow> world" where
  "print_traces_upto i hi w =
     (if i \<le> hi
      then print_traces_upto (i + 1) hi (eprintf (last_traces w ! nat i) w)
      else w)"
  by pat_completeness auto
termination
  by (relation "measure (\<lambda>(i, hi, w). nat (hi + 1 - i))") auto

declare print_traces_upto.simps [simp del]

function print_traces_wrapped :: "int \<Rightarrow> int \<Rightarrow> world \<Rightarrow> world" where
  "print_traces_wrapped i hi w =
     (if i \<le> hi
      then print_traces_wrapped (i + 1) hi
             (eprintf (last_traces w ! nat (i smod int MAX_LAST_TRACES)) w)
      else w)"
  by pat_completeness auto
termination
  by (relation "measure (\<lambda>(i, hi, w). nat (hi + 1 - i))") auto

declare print_traces_wrapped.simps [simp del]

definition print_the_last :: "int \<Rightarrow> string" where
  "print_the_last n = ''print the last '' @ show_int n @ '' traces...'' @ nl"

text \<open>The block of \<open>sniff\<close> that prints the recorded traces before the process dies.\<close>

definition print_last_traces :: "world \<Rightarrow> world" where
  "print_last_traces w =
     (if last_traces_first w = -1 \<or> last_traces_last w = -1
      then eprintf (''no trace to display'' @ nl) w
      else if last_traces_first w \<le> last_traces_last w
      then print_traces_upto (last_traces_first w) (last_traces_last w)
             (eprintf (print_the_last (last_traces_last w - last_traces_first w)) w)
      else print_traces_wrapped (last_traces_first w)
             (int MAX_LAST_TRACES + last_traces_last w)
             (eprintf (print_the_last
                (int MAX_LAST_TRACES - last_traces_first w + last_traces_last w)) w))"

text \<open>
  The content of the ring buffer as the specification describes it: the retained lines
  from the oldest to the newest, the window between the two cursors read around the end
  of the array.
\<close>

definition ring_count :: "world \<Rightarrow> nat" where
  "ring_count w =
     (if last_traces_first w = -1 \<or> last_traces_last w = -1 then 0
      else nat ((last_traces_last w - last_traces_first w) mod int MAX_LAST_TRACES) + 1)"

definition ring_contents :: "world \<Rightarrow> string list" where
  "ring_contents w =
     map (\<lambda>k. last_traces w ! ((nat (last_traces_first w) + k) mod MAX_LAST_TRACES))
       [0 ..< ring_count w]"

text \<open>
  A state of the ring buffer is well formed when the array has all its slots and the two
  cursors are both -1 or both indices of the array.
\<close>

definition traces_wf :: "world \<Rightarrow> bool" where
  "traces_wf w \<longleftrightarrow>
     length (last_traces w) = MAX_LAST_TRACES \<and>
     (last_traces_first w = -1 \<and> last_traces_last w = -1 \<or>
      0 \<le> last_traces_first w \<and> last_traces_first w < int MAX_LAST_TRACES \<and>
      0 \<le> last_traces_last w \<and> last_traces_last w < int MAX_LAST_TRACES)"

text \<open>
  The invariant of the ring buffer after the traces \<open>ts\<close> were recorded into an empty
  buffer: the newest trace is in slot \<open>(length ts - 1) mod MAX_LAST_TRACES\<close>, the oldest
  retained one is trace number \<open>length ts - MAX_LAST_TRACES\<close> (or 0), and every retained
  trace is in the slot of its number modulo the capacity.
\<close>

definition ring_inv :: "(rohc_trace_level \<times> string) list \<Rightarrow> world \<Rightarrow> bool" where
  "ring_inv ts w \<longleftrightarrow>
     length (last_traces w) = MAX_LAST_TRACES \<and>
     (if ts = []
      then last_traces_first w = -1 \<and> last_traces_last w = -1
      else last_traces_last w = int ((length ts - 1) mod MAX_LAST_TRACES) \<and>
           last_traces_first w = int ((length ts - MAX_LAST_TRACES) mod MAX_LAST_TRACES)) \<and>
     (\<forall>j. length ts - MAX_LAST_TRACES \<le> j \<and> j < length ts \<longrightarrow>
        last_traces w ! (j mod MAX_LAST_TRACES) = take MAX_TRACE_LEN (snd (ts ! j)))"

subsection \<open>The packet comparator\<close>

text \<open>
  \<open>sprintf(str, "%c0x%.2x%c", sep1, byte, sep2)\<close>: one byte between its two separators.
\<close>

definition sprintf_cell :: "char \<Rightarrow> byte \<Rightarrow> char \<Rightarrow> string" where
  "sprintf_cell sep1 b sep2 = sep1 # ''0x'' @ show_hex2 b @ [sep2]"

text \<open>
  The block that prints one row once \<open>j + 1\<close> bytes are formatted in \<open>str1\<close> and \<open>str2\<close>:
  four columns for the first packet (blank where the row has no byte), a gap, the bytes
  of the second packet, and the end of the line.
\<close>

definition print_row :: "nat \<Rightarrow> string list \<Rightarrow> string list \<Rightarrow> world \<Rightarrow> world" where
  "print_row j str1 str2 w =
     (let w1 = foldl (\<lambda>w k. if k < j + 1 then printf (str1 ! k @ ''  '') w
                                else printf ''        '' w) w [0 ..< 4];
          w2 = printf ''      '' w1;
          w3 = foldl (\<lambda>w k. printf (str2 ! k @ ''  '') w) w2 [0 ..< j + 1]
      in printf nl w3)"

text \<open>
  The loop \<open>for(i = 0; i < min_size; i++)\<close> of \<open>compare_packets\<close>, entered with the byte
  index \<open>i\<close>, the column \<open>j\<close> and the two arrays of formatted bytes. The two counters
  start at 0 and only grow: they are natural numbers; \<open>min_size\<close> is the \<open>int\<close> of the
  source and may be negative.
\<close>

function compare_rows ::
  "byte list \<Rightarrow> byte list \<Rightarrow> int \<Rightarrow> nat \<Rightarrow> nat \<Rightarrow> string list \<Rightarrow> string list \<Rightarrow> world \<Rightarrow> world"
where
  "compare_rows pkt1 pkt2 min_size i j str1 str2 w =
     (if int i < min_size
      then let differs = (pkt1 ! i \<noteq> pkt2 ! i);
               sep1 = (if differs then CHR ''#'' else CHR ''['');
               sep2 = (if differs then CHR ''#'' else CHR '']'');
               str1' = str1[j := sprintf_cell sep1 (pkt1 ! i) sep2];
               str2' = str2[j := sprintf_cell sep1 (pkt2 ! i) sep2]
           in if j \<ge> 3 \<or> int (i + 1) \<ge> min_size
              then compare_rows pkt1 pkt2 min_size (i + 1) 0 str1' str2'
                     (print_row j str1' str2' w)
              else compare_rows pkt1 pkt2 min_size (i + 1) (j + 1) str1' str2' w
      else w)"
  by pat_completeness auto
termination
  by (relation "measure (\<lambda>(pkt1, pkt2, min_size, i, j, str1, str2, w). nat min_size - i)") auto

declare compare_rows.simps [simp del]

text \<open>
  \<open>compare_packets\<close>: the two buffers with their sizes. \<open>memcmp\<close> over \<open>pkt1_size\<close> bytes
  is the equality of the two prefixes of that length. The result is the returned \<open>valid\<close>
  and the world with what was printed.
\<close>

definition compare_packets ::
  "byte list \<Rightarrow> int \<Rightarrow> byte list \<Rightarrow> int \<Rightarrow> world \<Rightarrow> int \<times> world"
where
  "compare_packets pkt1 pkt1_size pkt2 pkt2_size w =
     (let min_size = min 180 (min pkt1_size pkt2_size)
      in if pkt1_size = pkt2_size \<and>
            take (nat pkt1_size) pkt1 = take (nat pkt1_size) pkt2
         then (1, w)
         else
           let w1 = printf (''------------------------------ Compare ------------------------------'' @ nl) w;
               w2 = printf (''--------- reference ----------         ----------- new --------------'' @ nl) w1;
               w3 = (if pkt1_size \<noteq> pkt2_size
                     then printf (''packets have different sizes ('' @ show_int pkt1_size @
                            '' != '' @ show_int pkt2_size @ ''), compare only the '' @
                            show_int min_size @ '' first bytes'' @ nl) w2
                     else w2);
               w4 = compare_rows pkt1 pkt2 min_size 0 0 (replicate 4 []) (replicate 4 []) w3
           in (0, printf (''----------------------- packets are different -----------------------'' @ nl) w4))"

text \<open>
  The hex dump as the specification describes it, for comparison with the loop: the
  first \<open>n\<close> bytes of both buffers in rows of four, a byte between \<open>#\<close> signs where the two
  buffers differ at its position and between brackets where they agree.
\<close>

definition dump_cell :: "byte list \<Rightarrow> byte list \<Rightarrow> byte list \<Rightarrow> nat \<Rightarrow> string" where
  "dump_cell pkt pkt1 pkt2 i =
     (if pkt1 ! i \<noteq> pkt2 ! i
      then ''#0x'' @ show_hex2 (pkt ! i) @ ''#  ''
      else ''[0x'' @ show_hex2 (pkt ! i) @ '']  '')"

definition dump_row :: "byte list \<Rightarrow> byte list \<Rightarrow> nat \<Rightarrow> nat \<Rightarrow> string list" where
  "dump_row pkt1 pkt2 lo hi =
     map (dump_cell pkt1 pkt1 pkt2) [lo ..< hi] @
     replicate (4 - (hi - lo)) ''        '' @
     [''      ''] @
     map (dump_cell pkt2 pkt1 pkt2) [lo ..< hi] @
     [nl]"

definition hex_dump :: "byte list \<Rightarrow> byte list \<Rightarrow> nat \<Rightarrow> string list" where
  "hex_dump pkt1 pkt2 n =
     concat (map (\<lambda>r. dump_row pkt1 pkt2 (4 * r) (min (4 * r + 4) n)) [0 ..< (n + 3) div 4])"

text \<open>The lines printed above the dump: the two banners, and the sizes when they differ.\<close>

definition compare_banner :: "int \<Rightarrow> int \<Rightarrow> string list" where
  "compare_banner pkt1_size pkt2_size =
     [''------------------------------ Compare ------------------------------'' @ nl,
      ''--------- reference ----------         ----------- new --------------'' @ nl] @
     (if pkt1_size \<noteq> pkt2_size
      then [''packets have different sizes ('' @ show_int pkt1_size @ '' != '' @
            show_int pkt2_size @ ''), compare only the '' @
            show_int (min 180 (min pkt1_size pkt2_size)) @ '' first bytes'' @ nl]
      else [])"

definition compare_footer :: string where
  "compare_footer = ''----------------------- packets are different -----------------------'' @ nl"

subsection \<open>The compress/decompress pipeline\<close>

text \<open>
  Modelled from the spec: the constants and types of headers that are not part of the
  sniffer's source. \<open>ETHER_HDR_LEN\<close> is the 14-byte Ethernet header;
  \<open>struct ip6_hdr\<close> is the 40-byte fixed IPv6 header and
  \<open>rohc_comp_last_packet_info2_t\<close> the library's record about the last compressed
  packet, of which the context identifier and the flag of a newly initialised context
  are read. Where the specification is silent the standard layout of the IP headers is
  taken: the total length of \<open>struct iphdr\<close> is the 16-bit field at offset 2, the payload
  length of \<open>struct ip6_hdr\<close> the 16-bit field at offset 4.
\<close>

definition ETHER_HDR_LEN :: int where
  "ETHER_HDR_LEN = 14"

definition sizeof_ip6_hdr :: int where
  "sizeof_ip6_hdr = 40"

record last_packet_info =
  context_id :: "32 word"
  is_context_init :: bool

definition LINUX_COOKED_HDR_LEN :: int where
  "LINUX_COOKED_HDR_LEN = 16"

definition ETHER_FRAME_MIN_LEN :: "32 word" where
  "ETHER_FRAME_MIN_LEN = 60"

definition MAX_ROHC_SIZE :: int where
  "MAX_ROHC_SIZE = 5 * 1024"

text \<open>
  The link layer types that \<open>sniff\<close> accepts from \<open>pcap_datalink\<close> (it gives up on any
  other), and the length of the link layer header that it derives from the type.
\<close>

datatype datalink = DLT_EN10MB | DLT_LINUX_SLL | DLT_RAW

fun link_len_of :: "datalink \<Rightarrow> int" where
  "link_len_of DLT_EN10MB = ETHER_HDR_LEN"
| "link_len_of DLT_LINUX_SLL = LINUX_COOKED_HDR_LEN"
| "link_len_of DLT_RAW = 0"

text \<open>
  The ROHC library and the PCAP dump files are outside the sniffer: they are parameters.
  \<open>'e\<close> is the state of the compressor and of the decompressor associated with it. A call
  of \<open>rohc_compress\<close> or \<open>rohc_decompress\<close> with a buffer and its size gives the new
  state, the returned size, the bytes written to the output buffer and the traces the
  library emitted through the trace callback during the call.
  \<open>rohc_comp_get_last_packet_info2\<close> gives \<open>None\<close> when its return code is not \<open>ROHC_OK\<close>.
  \<open>pcap_dump_open\<close> gives \<open>None\<close> for a null dumper.
\<close>

record 'e env =
  rohc_compress ::
    "'e \<Rightarrow> byte list \<Rightarrow> int \<Rightarrow> 'e \<times> int \<times> byte list \<times> (rohc_trace_level \<times> string) list"
  rohc_comp_get_last_packet_info2 :: "'e \<Rightarrow> last_packet_info option"
  rohc_decompress ::
    "'e \<Rightarrow> byte list \<Rightarrow> int \<Rightarrow> 'e \<times> int \<times> byte list \<times> (rohc_trace_level \<times> string) list"
  pcap_dump_open :: "string \<Rightarrow> pcap_dumper option"

text \<open>
  What \<open>sniff\<close> hands to \<open>compress_decompress\<close> by reference: the compressor and
  decompressor, the array of dumpers (one per context), the \<open>cid\<close> output parameter; and
  the globals.
\<close>

record 'e process =
  rohc :: 'e
  dumpers :: "pcap_dumper option list"
  cid :: "32 word"
  glob :: world

text \<open>
  How the process dies before a function returns: a failed \<open>assert(0)\<close>, or a step whose
  behaviour C leaves undefined (an index outside the array of dumpers, a write through a
  null dumper).
\<close>

datatype ending = Assert_failed | Undefined_behaviour

definition log_dump :: "dump_op \<Rightarrow> world \<Rightarrow> world" where
  "log_dump op w = w\<lparr>dump_ops := dump_ops w @ [op]\<rparr>"

definition log_call :: "lib_call \<Rightarrow> world \<Rightarrow> world" where
  "log_call c w = w\<lparr>lib_calls := lib_calls w @ [c]\<rparr>"

definition quote :: string where
  "quote = [CHR 0x27]"

definition default_dump :: string where
  "default_dump = ''./dump_stream_default.pcap''"

text \<open>
  The check for padding after the IP packet in a minimal Ethernet frame: the new
  \<open>ip_size\<close> and the world with the message printed when the frame is padded.
\<close>

definition check_padding ::
  "byte_order \<Rightarrow> pcap_pkthdr \<Rightarrow> byte list \<Rightarrow> int \<Rightarrow> int \<Rightarrow> world \<Rightarrow> int \<times> world"
where
  "check_padding bo header ip_packet link_len_src ip_size w =
     (if link_len_src = ETHER_HDR_LEN \<and> len header = ETHER_FRAME_MIN_LEN
      then let version = (drop_bit 4 (ip_packet ! 0)) AND 0x0f;
               tot_len = (if version = 4
                          then uint (ntohs bo (load_u16 bo ip_packet 2))
                          else sizeof_ip6_hdr + uint (ntohs bo (load_u16 bo ip_packet 4)))
           in if tot_len < ip_size
              then (tot_len,
                    eprintf (''the Ethernet frame has '' @ show_int (ip_size - tot_len) @
                      '' bytes of padding after the '' @ show_int tot_len @
                      '' byte IP packet!'' @ nl) w)
              else (ip_size, w)
      else (ip_size, w))"

text \<open>The branch taken when \<open>rohc_compress\<close> fails: the packet goes to the default dump.\<close>

definition compression_failed ::
  "'e env \<Rightarrow> pcap_pkthdr \<Rightarrow> byte list \<Rightarrow> 'e process \<Rightarrow> (ending + int) \<times> 'e process"
where
  "compression_failed env header packet p =
     (let w1 = eprintf (''compression failed'' @ nl) (glob p);
          w2 = log_dump (Pcap_dump_open default_dump) w1
      in case pcap_dump_open env default_dump of
           None \<Rightarrow>
             (Inl Assert_failed,
              p\<lparr>glob := eprintf (''failed to open new dump file '' @ quote @ default_dump @
                        quote @ nl) w2\<rparr>)
         | Some dumper \<Rightarrow>
             let w3 = eprintf (''dump packet in file '' @ quote @ default_dump @ quote @ nl) w2;
                 w4 = log_dump (Pcap_dump dumper header packet) w3;
                 w5 = eprintf (''close dump file'' @ nl) w4;
                 w6 = log_dump (Pcap_dump_close dumper) w5
             in (Inr (-1), p\<lparr>glob := w6\<rparr>))"

definition dump_filename :: "32 word \<Rightarrow> string" where
  "dump_filename c = ''./dump_stream_cid_'' @ show_nat (unat c) @ ''.pcap''"

text \<open>
  The dump of the packet in the file of its context: a new dumper is opened when the
  context was just initialised, after the one the array held for that context was closed
  and its file removed. \<open>None\<close> when the packet is dumped and the function goes on.
\<close>

definition dump_in_context ::
  "'e env \<Rightarrow> pcap_pkthdr \<Rightarrow> byte list \<Rightarrow> last_packet_info \<Rightarrow> 'e process \<Rightarrow>
     ending option \<times> 'e process"
where
  "dump_in_context env header packet info p =
     (let c = unat (context_id info);
          name = dump_filename (context_id info)
      in if c \<ge> length (dumpers p) then (Some Undefined_behaviour, p)
         else
           let opened =
                 (if is_context_init info
                  then let w1 = (case dumpers p ! c of
                                   None \<Rightarrow> glob p
                                 | Some old \<Rightarrow>
                                     log_dump (Unlink name)
                                       (log_dump (Pcap_dump_close old)
                                          (printf (''replace dump file '' @ quote @ name @
                                             quote @ '' for context with ID '' @
                                             show_nat c @ nl) (glob p))));
                           w2 = log_dump (Pcap_dump_open name) w1
                       in p\<lparr>dumpers := (dumpers p)[c := pcap_dump_open env name], glob := w2\<rparr>
                  else p)
           in case dumpers opened ! c of
                None \<Rightarrow>
                  if is_context_init info
                  then (Some Assert_failed,
                        opened\<lparr>glob := eprintf (''failed to open new dump file '' @ quote @
                                  name @ quote @ '' for context with ID '' @ show_nat c @ nl)
                                  (glob opened)\<rparr>)
                  else (Some Undefined_behaviour, opened)
              | Some dumper \<Rightarrow>
                  (None, opened\<lparr>glob := log_dump (Pcap_dump dumper header packet) (glob opened)\<rparr>))"

text \<open>
  The end of \<open>compress_decompress\<close>, once the packet is dumped: the ROHC packet is
  decompressed and the result compared with the IP packet that was compressed.
\<close>

definition decompress_and_compare ::
  "'e env \<Rightarrow> byte list \<Rightarrow> int \<Rightarrow> byte list \<Rightarrow> int \<Rightarrow> 'e process \<Rightarrow>
     (ending + int) \<times> 'e process"
where
  "decompress_and_compare env ip_packet ip_size rohc_packet rohc_size p =
     (let (e2, decomp_size, decomp_packet, traces2) =
            rohc_decompress env (rohc p) rohc_packet rohc_size;
          w5 = record_traces traces2
                 (log_call (Rohc_decompress rohc_packet rohc_size) (glob p));
          p5 = p\<lparr>rohc := e2, glob := w5\<rparr>
      in if decomp_size \<le> 0
         then (Inr (-2), p5\<lparr>glob := eprintf (''decompression failed'' @ nl) w5\<rparr>)
         else
           let (valid, w6) = compare_packets ip_packet ip_size decomp_packet decomp_size w5
           in if valid = 0
              then (Inr 0,
                    p5\<lparr>glob := eprintf (''comparison with original packet failed'' @ nl) w6\<rparr>)
              else (Inr 1, p5\<lparr>glob := w6\<rparr>))"

text \<open>
  The part of \<open>compress_decompress\<close> that follows a successful compression: the
  information on the compressed packet is retrieved, the packet is dumped in the file of
  its context, the context identifier is recorded in \<open>cid\<close>.
\<close>

definition dump_and_decompress ::
  "'e env \<Rightarrow> pcap_pkthdr \<Rightarrow> byte list \<Rightarrow> byte list \<Rightarrow> int \<Rightarrow> byte list \<Rightarrow> int \<Rightarrow>
     'e process \<Rightarrow> (ending + int) \<times> 'e process"
where
  "dump_and_decompress env header packet ip_packet ip_size rohc_packet rohc_size p =
     (let p1 = p\<lparr>glob := log_call Rohc_comp_get_last_packet_info2 (glob p)\<rparr>
      in case rohc_comp_get_last_packet_info2 env (rohc p) of
           None \<Rightarrow>
             (Inr (-4),
              p1\<lparr>glob := eprintf (''failed to get compression info'' @ nl) (glob p1)\<rparr>)
         | Some info \<Rightarrow>
             (case dump_in_context env header packet info p1 of
                (Some died, p3) \<Rightarrow> (Inl died, p3)
              | (None, p3) \<Rightarrow>
                  decompress_and_compare env ip_packet ip_size rohc_packet rohc_size
                    (p3\<lparr>cid := context_id info\<rparr>)))"

text \<open>
  \<open>compress_decompress\<close>. The result is the returned code, or how the process died, with
  what the function left behind. \<open>header.len\<close> is unsigned: it is compared with
  \<open>link_len_src\<close> converted to unsigned, their difference is converted back to \<open>int\<close>,
  and \<open>%d\<close> prints it as a signed number. The arguments \<open>use_large_cid\<close> and \<open>handle\<close>
  are not read but to open the dumps.
\<close>

definition compress_decompress ::
  "byte_order \<Rightarrow> 'e env \<Rightarrow> pcap_pkthdr \<Rightarrow> byte list \<Rightarrow> int \<Rightarrow> 'e process \<Rightarrow>
     (ending + int) \<times> 'e process"
where
  "compress_decompress bo env header packet link_len_src p =
     (if len header \<le> word_of_int link_len_src \<or> len header \<noteq> caplen header
      then (Inr (-3),
            p\<lparr>glob := eprintf (''bad PCAP packet (len = '' @ show_int (sint (len header)) @
                      '', caplen = '' @ show_int (sint (caplen header)) @ '')'' @ nl) (glob p)\<rparr>)
      else
        let ip_packet = drop (nat link_len_src) packet;
            (ip_size, w1) = check_padding bo header ip_packet link_len_src
                              (sint (len header - word_of_int link_len_src)) (glob p);
            (e1, rohc_size, rohc_packet, traces1) = rohc_compress env (rohc p) ip_packet ip_size;
            w2 = record_traces traces1 (log_call (Rohc_compress ip_packet ip_size) w1);
            p2 = p\<lparr>rohc := e1, glob := w2\<rparr>
        in if rohc_size \<le> 0 then compression_failed env header packet p2
           else dump_and_decompress env header packet ip_packet ip_size rohc_packet rohc_size p2)"

subsection \<open>The capture loop\<close>

text \<open>The statistics of \<open>sniff\<close> and its packet counter, all \<open>unsigned int\<close>.\<close>

record stats =
  counter :: "32 word"
  nb_ok :: "32 word"
  nb_bad :: "32 word"
  nb_internal_err :: "32 word"
  err_comp :: "32 word"
  err_decomp :: "32 word"
  nb_ref :: "32 word"

text \<open>The chain of tests on the code that \<open>compress_decompress\<close> returned.\<close>

definition count_result :: "int \<Rightarrow> stats \<Rightarrow> stats" where
  "count_result ret st =
     (if ret = -1 then st\<lparr>err_comp := err_comp st + 1\<rparr>
      else if ret = -2 then st\<lparr>err_decomp := err_decomp st + 1\<rparr>
      else if ret = 0 then st\<lparr>nb_ref := nb_ref st + 1\<rparr>
      else if ret = 1 then st\<lparr>nb_ok := nb_ok st + 1\<rparr>
      else if ret = -3 then st\<lparr>nb_bad := nb_bad st + 1\<rparr>
      else st\<lparr>nb_internal_err := nb_internal_err st + 1\<rparr>)"

text \<open>The line of statistics printed on the error stream when a packet fails.\<close>

definition stats_line :: "stats \<Rightarrow> 32 word \<Rightarrow> string" where
  "stats_line st c =
     ''packet #'' @ show_nat (unat (counter st)) @ '', CID '' @ show_nat (unat c) @
     '': stats OK, ERR(COMP), ERR(DECOMP), ERR(REF), ERR(BAD), ERR(INTERNAL)'' @
     tab @ ''='' @
     tab @ show_nat (unat (nb_ok st)) @
     tab @ show_nat (unat (err_comp st)) @
     tab @ show_nat (unat (err_decomp st)) @
     tab @ show_nat (unat (nb_ref st)) @
     tab @ show_nat (unat (nb_bad st)) @
     tab @ show_nat (unat (nb_internal_err st)) @ nl"

text \<open>
  The start of one turn of the loop: the counter is incremented, \<open>cid\<close> is 0 and the
  packet number is printed over the previous one.
\<close>

definition begin_packet :: "stats \<Rightarrow> 'e process \<Rightarrow> stats \<times> 'e process" where
  "begin_packet st p =
     (let st1 = st\<lparr>counter := counter st + 1\<rparr>;
          w1 = (if counter st1 > 1 then printf [CHR 0x0D] (glob p) else glob p);
          w2 = printf (''packet #'' @ show_nat (unat (counter st1))) w1
      in (st1, p\<lparr>cid := 0, glob := w2\<rparr>))"

text \<open>
  One turn of the loop of \<open>sniff\<close> on a captured packet. \<open>Some\<close> when the process died in
  this turn: inside \<open>compress_decompress\<close>, or at the \<open>assert(0)\<close> that follows the
  statistics and the recorded traces when the returned code is not 1.
\<close>

definition sniff_packet ::
  "byte_order \<Rightarrow> 'e env \<Rightarrow> int \<Rightarrow> pcap_pkthdr \<Rightarrow> byte list \<Rightarrow> stats \<Rightarrow> 'e process \<Rightarrow>
     ending option \<times> stats \<times> 'e process"
where
  "sniff_packet bo env link_len_src header packet st p =
     (let (st1, p1) = begin_packet st p
      in case compress_decompress bo env header packet link_len_src p1 of
           (Inl died, p2) \<Rightarrow> (Some died, st1, p2)
         | (Inr ret, p2) \<Rightarrow>
             let st2 = count_result ret st1
             in if ret \<noteq> 1
                then (Some Assert_failed, st2,
                      p2\<lparr>glob := print_last_traces
                                  (eprintf (stats_line st2 (cid p2)) (glob p2))\<rparr>)
                else (None, st2, p2))"

text \<open>
  The loop \<open>while(!stop_program && (packet = pcap_next(...)) != NULL)\<close> over the packets
  that the capture delivers, until it delivers no more. The signal handler that sets
  \<open>stop_program\<close> is outside the model: the flag is read as the world has it.
\<close>

fun sniff_packets ::
  "byte_order \<Rightarrow> 'e env \<Rightarrow> int \<Rightarrow> (pcap_pkthdr \<times> byte list) list \<Rightarrow> stats \<Rightarrow> 'e process \<Rightarrow>
     ending option \<times> stats \<times> 'e process"
where
  "sniff_packets bo env link_len_src [] st p = (None, st, p)"
| "sniff_packets bo env link_len_src ((header, packet) # frames) st p =
     (if stop_program (glob p) then (None, st, p)
      else case sniff_packet bo env link_len_src header packet st p of
             (Some died, st', p') \<Rightarrow> (Some died, st', p')
           | (None, st', p') \<Rightarrow> sniff_packets bo env link_len_src frames st' p')"

text \<open>
  The true total length of an IP packet as the specification describes it, for
  comparison with the check for padding: the total length field of an IPv4 header, or
  the 40 bytes of the fixed IPv6 header plus its payload length field.
\<close>

definition true_total_length :: "byte list \<Rightarrow> int" where
  "true_total_length ip_packet =
     (if drop_bit 4 (ip_packet ! 0) = 4
      then 256 * uint (ip_packet ! 2) + uint (ip_packet ! 3)
      else 40 + (256 * uint (ip_packet ! 4) + uint (ip_packet ! 5)))"

subsection \<open>An example run\<close>

text \<open>
  For the closed examples: a library that "compresses" and "decompresses" a packet by
  copying it, counts its calls in its state, reports context 0 (initialised by the first
  packet) and emits one trace per call; dump files that always open; a process that has
  not seen a packet yet; and a minimal Ethernet frame whose 46-byte payload starts with
  the given six bytes, the other bytes being zero.
\<close>

definition copy_lib :: "nat env" where
  "copy_lib =
     \<lparr> rohc_compress =
         (\<lambda>e buf size. (e + 1, size, take (nat size) buf, [(ROHC_TRACE_DEBUG, ''compress'' @ nl)])),
       rohc_comp_get_last_packet_info2 =
         (\<lambda>e. Some \<lparr> context_id = 0, is_context_init = (e = 1) \<rparr>),
       rohc_decompress =
         (\<lambda>e buf size. (e, size, take (nat size) buf, [(ROHC_TRACE_DEBUG, ''decompress'' @ nl)])),
       pcap_dump_open = (\<lambda>name. Some (Dumper name)) \<rparr>"

text \<open>
  Two libraries that fail: one whose decompressor rejects every packet, and one whose
  compressor rejects every packet while no dump file can be opened.
\<close>

definition no_decomp_lib :: "nat env" where
  "no_decomp_lib =
     copy_lib\<lparr> rohc_decompress :=
       (\<lambda>e buf size. (e, 0, [], [(ROHC_TRACE_ERROR, ''cannot decompress'' @ nl)])) \<rparr>"

definition no_comp_no_dump_lib :: "nat env" where
  "no_comp_no_dump_lib =
     copy_lib\<lparr> rohc_compress :=
       (\<lambda>e buf size. (e, 0, [], [(ROHC_TRACE_ERROR, ''cannot compress'' @ nl)])),
       pcap_dump_open := (\<lambda>name. None) \<rparr>"

definition new_process :: "nat process" where
  "new_process =
     \<lparr> rohc = 0, dumpers = replicate 16 None, cid = 0, glob = initial_world False \<rparr>"

definition zero_stats :: stats where
  "zero_stats =
     \<lparr> counter = 0, nb_ok = 0, nb_bad = 0, nb_internal_err = 0, err_comp = 0,
       err_decomp = 0, nb_ref = 0 \<rparr>"

definition min_frame :: "byte \<Rightarrow> byte \<Rightarrow> byte \<Rightarrow> byte \<Rightarrow> byte \<Rightarrow> byte \<Rightarrow> byte list" where
  "min_frame b0 b1 b2 b3 b4 b5 = replicate 14 0 @ [b0, b1, b2, b3, b4, b5] @ replicate 40 0"

section \<open>Properties\<close>

subsection \<open>The RTP detection callback\<close>

lemma ntohs_load_u16_udp_hdr:
  "ntohs bo (load_u16 bo (udp_hdr s d l c) 0) = s"
  "ntohs bo (load_u16 bo (udp_hdr s d l c) 2) = d"
  "ntohs bo (load_u16 bo (udp_hdr s d l c) 4) = l"
  by (cases bo; simp add: ntohs_def load_u16_def udp_hdr_def;
      rule bit_word_eqI; auto simp add: bit_simps)+

text \<open>
  What the parity test of the callback reads. The destination port is loaded in host
  order and tested without \<open>ntohs\<close>: on a big-endian host the test sees the port's lowest
  bit, on a little-endian host bit 8 of the port (the lowest bit of its first byte).
\<close>

lemma raw_dport_parity:
  "load_u16 bo (udp_hdr s d l c) 2 mod 2 \<noteq> 0 \<longleftrightarrow>
     (case bo of LittleEndian \<Rightarrow> bit d 8 | BigEndian \<Rightarrow> bit d 0)"
proof -
  have m: "x mod 2 \<noteq> 0 \<longleftrightarrow> bit x 0" for x :: "16 word"
    by (simp add: bit_0 odd_iff_mod_2_eq_one)
  show ?thesis
    unfolding m
    by (cases bo) (simp_all add: load_u16_def udp_hdr_def bit_simps)
qed

lemma odd_unat_bit0: "odd (unat (d :: 16 word)) \<longleftrightarrow> bit d 0"
  by (simp flip: bit_0 add: bit_unsigned_iff)

lemma top_two_bits: "(drop_bit 6 (b :: byte)) AND 0x3 = drop_bit 6 b"
proof -
  have three: "(0x3 :: byte) = mask 2"
    by (simp add: mask_eq_exp_minus_1)
  show ?thesis
    unfolding three
    by (rule bit_word_eqI) (auto simp add: bit_simps dest: bit_imp_le_length)
qed

text \<open>The callback on any UDP header and payload, as the code decides it.\<close>

lemma rtp_detect_cb_char:
  "rtp_detect_cb bo (udp_hdr sport dport ulen cksum) payload \<longleftrightarrow>
     \<not> (sport = 5060 \<and> dport = 5060) \<and>
     \<not> (case bo of LittleEndian \<Rightarrow> bit dport 8 | BigEndian \<Rightarrow> bit dport 0) \<and>
     ulen \<le> 200 \<and>
     12 \<le> length payload \<and>
     drop_bit 6 (payload ! 0) = 2 \<and>
     (payload ! 1) AND 0x7f \<in> {0x03, 0x04, 0x12, 0x65}"
  unfolding rtp_detect_cb_def Let_def ntohs_load_u16_udp_hdr raw_dport_parity top_two_bits
  by (auto simp add: not_less)

lemma rtp_detect_cb_odd_port_big_endian:
  "odd (unat dport) \<Longrightarrow> \<not> rtp_detect_cb BigEndian (udp_hdr sport dport ulen cksum) payload"
  by (simp add: rtp_detect_cb_char odd_unat_bit0)

text \<open>
  C1. The claim: a UDP packet whose destination port is odd is never classified as RTP.
  The callback tests the parity of the destination port as loaded in host order, without
  the \<open>ntohs\<close> that its other port tests apply. On a little-endian host the packet below,
  with the odd destination port 16385 (bytes 0x40 0x01), a UDP length of 28 and a 20-byte
  payload that starts with 0x80 0x03, is classified as RTP.
\<close>

theorem rtp_detect_cb_odd_port_little_endian:
  "rtp_detect_cb LittleEndian (udp_hdr 40000 16385 28 0) (0x80 # 0x03 # replicate 18 0) = True"
  by (simp add: rtp_detect_cb_char bit_simps)

text \<open>
  C2, the claim as stated fails: a well-formed packet with even ports, a 195-byte payload
  (no more than 200 bytes) that starts with 0x80 0x03, and therefore a UDP length field of
  203, satisfies the stated rule and is rejected by the callback on either byte order.
\<close>

theorem rtp_detect_cb_payload_length_counterexample:
  "looks_like_rtp_spec 16384 16384 (0x80 # 0x03 # replicate 193 0) \<and>
   \<not> rtp_detect_cb LittleEndian (udp_hdr 16384 16384 203 0) (0x80 # 0x03 # replicate 193 0) \<and>
   \<not> rtp_detect_cb BigEndian (udp_hdr 16384 16384 203 0) (0x80 # 0x03 # replicate 193 0)"
  by (simp add: rtp_detect_cb_char looks_like_rtp_spec_def bit_simps)

text \<open>
  C2, amended. Whenever the parity test reads the real parity of the destination port
  (always on a big-endian host; on a little-endian host when bit 8 and bit 0 of the port
  agree), the callback returns true exactly when: the source and destination ports are
  not both 5060, the destination port is even, the length field of the UDP header (header
  plus payload) does not exceed 200, the payload is at least 12 bytes long, the top two
  bits of its first byte are binary 10, and the low seven bits of its second byte are
  0x03, 0x04, 0x12 or 0x65.
\<close>

theorem rtp_detect_cb_decision_rule:
  assumes "bo = BigEndian \<or> bit dport 8 = bit dport 0"
  shows "rtp_detect_cb bo (udp_hdr sport dport ulen cksum) payload \<longleftrightarrow>
     \<not> (sport = 5060 \<and> dport = 5060) \<and>
     even (unat dport) \<and>
     unat ulen \<le> 200 \<and>
     12 \<le> length payload \<and>
     drop_bit 6 (payload ! 0) = 2 \<and>
     (payload ! 1) AND 0x7f \<in> {0x03, 0x04, 0x12, 0x65}"
proof -
  have len: "ulen \<le> 200 \<longleftrightarrow> unat ulen \<le> 200"
    by (simp add: word_le_nat_alt)
  have par: "(case bo of LittleEndian \<Rightarrow> bit dport 8 | BigEndian \<Rightarrow> bit dport 0) \<longleftrightarrow>
      odd (unat dport)"
    using assms by (cases bo) (simp_all add: odd_unat_bit0)
  show ?thesis
    unfolding rtp_detect_cb_char len par by simp
qed

theorem rtp_detect_cb_decision_rule_witness:
  "(LittleEndian = BigEndian \<or> bit (16384 :: 16 word) 8 = bit (16384 :: 16 word) 0) \<and>
   rtp_detect_cb LittleEndian (udp_hdr 40000 16384 28 0) (0x80 # 0x03 # replicate 18 0)"
  using rtp_detect_cb_decision_rule
    [of LittleEndian 16384 40000 28 0 "0x80 # 0x03 # replicate 18 0"]
  by (simp add: bit_simps)

text \<open>
  C3, the claim as stated fails: the packet with destination port 5061, a 20-byte payload
  and payload bytes 0x80 0x03 is not classified as RTP, on either byte order.
\<close>

theorem rtp_detect_cb_port_5061_counterexample:
  "\<not> rtp_detect_cb LittleEndian (udp_hdr 40000 5061 28 0) (0x80 # 0x03 # replicate 18 0) \<and>
   \<not> rtp_detect_cb BigEndian (udp_hdr 40000 5061 28 0) (0x80 # 0x03 # replicate 18 0)"
  by (simp add: rtp_detect_cb_char bit_simps)

text \<open>
  C3, amended. A UDP packet with destination port 5061, a 20-byte payload, first payload
  byte 0x80 and second payload byte 0x03 is classified as not RTP (5061 is odd); the same
  packet with source and destination port 5060 is classified as not RTP; the same packet
  with destination port 5063 is classified as not RTP. Each holds for every source port,
  length field, checksum and host byte order.
\<close>

theorem rtp_detect_cb_spec_examples:
  assumes "length payload = 20" and "payload ! 0 = 0x80" and "payload ! 1 = 0x03"
  shows "\<not> rtp_detect_cb bo (udp_hdr sport 5061 ulen cksum) payload \<and>
         \<not> rtp_detect_cb bo (udp_hdr 5060 5060 ulen cksum) payload \<and>
         \<not> rtp_detect_cb bo (udp_hdr sport 5063 ulen cksum) payload"
  by (cases bo) (simp_all add: rtp_detect_cb_char bit_simps)

theorem rtp_detect_cb_spec_examples_witness:
  "length (0x80 # 0x03 # replicate 18 (0 :: byte)) = 20 \<and>
   (0x80 # 0x03 # replicate 18 (0 :: byte)) ! 0 = 0x80 \<and>
   (0x80 # 0x03 # replicate 18 (0 :: byte)) ! 1 = 0x03 \<and>
   \<not> rtp_detect_cb LittleEndian (udp_hdr 40000 5061 28 0) (0x80 # 0x03 # replicate 18 0) \<and>
   \<not> rtp_detect_cb LittleEndian (udp_hdr 5060 5060 28 0) (0x80 # 0x03 # replicate 18 0) \<and>
   \<not> rtp_detect_cb LittleEndian (udp_hdr 40000 5063 28 0) (0x80 # 0x03 # replicate 18 0)"
  using rtp_detect_cb_spec_examples
    [of "0x80 # 0x03 # replicate 18 0" LittleEndian 40000 28 0]
  by simp

subsection \<open>Printed numbers read back\<close>

lemma of_char_digit_char:
  assumes "d < 16"
  shows "(of_char (digit_char d) :: nat) = (if d < 10 then 48 + d else 87 + d)"
proof -
  have "d = 0 \<or> d = 1 \<or> d = 2 \<or> d = 3 \<or> d = 4 \<or> d = 5 \<or> d = 6 \<or> d = 7 \<or>
      d = 8 \<or> d = 9 \<or> d = 10 \<or> d = 11 \<or> d = 12 \<or> d = 13 \<or> d = 14 \<or> d = 15"
    using assms by arith
  then show ?thesis
    by (elim disjE) (simp_all add: digit_char_def)
qed

lemma dec_value_snoc: "dec_value (s @ [c]) = 10 * dec_value s + (of_char c - 48)"
  by (simp add: dec_value_def)

lemma dec_value_show_nat: "dec_value (show_nat n) = n"
proof (induction n rule: show_nat.induct)
  case (1 n)
  show ?case
  proof (cases "n < 10")
    case True
    then show ?thesis
      by (subst show_nat.simps) (simp add: dec_value_def of_char_digit_char)
  next
    case False
    have "dec_value (show_nat n) =
        10 * dec_value (show_nat (n div 10)) + (of_char (digit_char (n mod 10)) - 48)"
      using False by (subst show_nat.simps) (simp add: dec_value_snoc)
    also have "\<dots> = 10 * (n div 10) + n mod 10"
      using 1 [OF False] by (simp add: of_char_digit_char)
    finally show ?thesis
      by simp
  qed
qed

lemma dec_value_show_int: "0 \<le> i \<Longrightarrow> int (dec_value (show_int i)) = i"
  by (simp add: show_int_def dec_value_show_nat)

lemma hex_value_show_hex2: "hex_value (show_hex2 b) = unat b"
proof -
  have "unat b < 2 ^ LENGTH(8)"
    by (rule unsigned_less)
  then have b: "unat b div 16 < 16" "unat b mod 16 < 16"
    by simp_all
  have v: "(if (of_char (digit_char d) :: nat) < 58 then of_char (digit_char d) - 48
      else of_char (digit_char d) - 87) = d" if "d < 16" for d
    using that by (simp add: of_char_digit_char)
  show ?thesis
    by (simp add: hex_value_def show_hex2_def v [OF b(1)] v [OF b(2)])
qed

subsection \<open>The ring buffer of the last traces\<close>

lemma smod_nonneg: "0 \<le> a \<Longrightarrow> 0 < b \<Longrightarrow> a smod b = a mod (b :: int)"
  by (simp add: smod_mod_positive)

lemma upto_as_upt: "[i..j] = map (\<lambda>k. i + int k) [0 ..< nat (j + 1 - i)]"
proof (induction "nat (j + 1 - i)" arbitrary: i)
  case 0
  then show ?case by simp
next
  case (Suc n)
  then have le: "i \<le> j" and n: "n = nat (j + 1 - (i + 1))"
    by linarith+
  have "[i..j] = i # [i + 1..j]"
    using le by (rule upto_rec1)
  also have "[i + 1..j] = map (\<lambda>k. (i + 1) + int k) [0 ..< nat (j + 1 - (i + 1))]"
    using Suc.hyps(1) [OF n] .
  also have "i # map (\<lambda>k. (i + 1) + int k) [0 ..< nat (j + 1 - (i + 1))]
      = map (\<lambda>k. i + int k) [0 ..< Suc (nat (j + 1 - (i + 1)))]"
    by (simp add: upt_conv_Cons map_Suc_upt [symmetric] del: upt_Suc)
  also have "Suc (nat (j + 1 - (i + 1))) = nat (j + 1 - i)"
    using le by linarith
  finally show ?case .
qed

lemma print_traces_upto_eq:
  "print_traces_upto i hi w =
     w\<lparr>stderr := stderr w @ map (\<lambda>k. last_traces w ! nat k) [i..hi]\<rparr>"
proof (induction i hi w rule: print_traces_upto.induct)
  case (1 i hi w)
  show ?case
  proof (cases "i \<le> hi")
    case True
    then have u: "[i..hi] = i # [i + 1..hi]"
      by (rule upto_rec1)
    have "print_traces_upto i hi w =
        print_traces_upto (i + 1) hi (eprintf (last_traces w ! nat i) w)"
      using True by (subst print_traces_upto.simps) simp
    also have "\<dots> =
        w\<lparr>stderr := stderr w @ map (\<lambda>k. last_traces w ! nat k) [i..hi]\<rparr>"
      unfolding 1 [OF True] u by (simp add: eprintf_def)
    finally show ?thesis .
  next
    case False
    then show ?thesis
      by (subst print_traces_upto.simps) simp
  qed
qed

lemma print_traces_wrapped_eq:
  "print_traces_wrapped i hi w =
     w\<lparr>stderr := stderr w @
        map (\<lambda>k. last_traces w ! nat (k smod int MAX_LAST_TRACES)) [i..hi]\<rparr>"
proof (induction i hi w rule: print_traces_wrapped.induct)
  case (1 i hi w)
  show ?case
  proof (cases "i \<le> hi")
    case True
    then have u: "[i..hi] = i # [i + 1..hi]"
      by (rule upto_rec1)
    have "print_traces_wrapped i hi w =
        print_traces_wrapped (i + 1) hi (eprintf (last_traces w ! nat (i smod int MAX_LAST_TRACES)) w)"
      using True by (subst print_traces_wrapped.simps) simp
    also have "\<dots> =
        w\<lparr>stderr := stderr w @ map (\<lambda>k. last_traces w ! nat (k smod int MAX_LAST_TRACES)) [i..hi]\<rparr>"
      unfolding 1 [OF True] u by (simp add: eprintf_def)
    finally show ?thesis .
  next
    case False
    then show ?thesis
      by (subst print_traces_wrapped.simps) simp
  qed
qed

lemma print_last_traces_empty:
  assumes "last_traces_first w = -1 \<or> last_traces_last w = -1"
  shows "print_last_traces w = w\<lparr>stderr := stderr w @ [''no trace to display'' @ nl]\<rparr>"
  using assms by (auto simp add: print_last_traces_def eprintf_def)

lemma print_last_traces_nonempty:
  assumes wf: "traces_wf w"
    and ne: "last_traces_first w \<noteq> -1" "last_traces_last w \<noteq> -1"
  shows "print_last_traces w =
     w\<lparr>stderr := stderr w @
        print_the_last (int (ring_count w) - 1) # ring_contents w\<rparr>"
proof -
  define N where "N = int MAX_LAST_TRACES"
  define f where "f = last_traces_first w"
  define l where "l = last_traces_last w"
  have N: "0 < N"
    by (simp add: N_def MAX_LAST_TRACES_def)
  have rng: "0 \<le> f" "f < N" "0 \<le> l" "l < N"
    using wf ne by (auto simp add: traces_wf_def N_def f_def l_def)
  show ?thesis
  proof (cases "f \<le> l")
    case True
    have d: "(l - f) mod N = l - f"
      using True rng by simp
    have cnt: "ring_count w = nat (l + 1 - f)"
      using ne True rng d
      by (simp add: ring_count_def N_def [symmetric] f_def [symmetric] l_def [symmetric]
          nat_add_distrib)
    have hdr: "int (ring_count w) - 1 = l - f"
      using cnt True by simp
    have "map (\<lambda>k. last_traces w ! nat k) [f..l] = ring_contents w"
      unfolding ring_contents_def upto_as_upt cnt map_map
    proof (rule map_cong [OF refl])
      fix k assume "k \<in> set [0 ..< nat (l + 1 - f)]"
      then have k: "f + int k \<le> l" by auto
      have "int ((nat f + k) mod MAX_LAST_TRACES) = (f + int k) mod N"
        using rng by (simp add: zmod_int N_def f_def)
      also have "\<dots> = f + int k"
        using k rng by simp
      finally have "(nat f + k) mod MAX_LAST_TRACES = nat (f + int k)"
        by linarith
      then show "((\<lambda>k. last_traces w ! nat k) \<circ> (\<lambda>k. f + int k)) k =
          last_traces w ! ((nat (last_traces_first w) + k) mod MAX_LAST_TRACES)"
        by (simp add: f_def)
    qed
    moreover have "print_last_traces w =
        print_traces_upto f l (eprintf (print_the_last (l - f)) w)"
      using True ne by (simp add: print_last_traces_def f_def l_def)
    ultimately show ?thesis
      unfolding hdr by (simp add: print_traces_upto_eq eprintf_def)
  next
    case False
    have d: "(l - f) mod N = l - f + N"
    proof -
      have "(l - f + N) mod N = l - f + N"
        using False rng by (intro mod_pos_pos_trivial) linarith+
      then show ?thesis by simp
    qed
    have cnt: "ring_count w = nat (N + l + 1 - f)"
      using ne False rng d
      by (simp add: ring_count_def N_def [symmetric] f_def [symmetric] l_def [symmetric]
          nat_add_distrib)
    have hdr: "int (ring_count w) - 1 = N - f + l"
      using cnt False rng by simp
    have "map (\<lambda>k. last_traces w ! nat (k smod N)) [f..N + l] = ring_contents w"
      unfolding ring_contents_def upto_as_upt cnt map_map
    proof (rule map_cong [OF refl])
      fix k assume "k \<in> set [0 ..< nat (N + l + 1 - f)]"
      have "int ((nat f + k) mod MAX_LAST_TRACES) = (f + int k) mod N"
        using rng by (simp add: zmod_int N_def f_def)
      also have "\<dots> = (f + int k) smod N"
        using rng N by (simp add: smod_nonneg)
      finally have "(nat f + k) mod MAX_LAST_TRACES = nat ((f + int k) smod N)"
        by linarith
      then show "((\<lambda>k. last_traces w ! nat (k smod N)) \<circ> (\<lambda>k. f + int k)) k =
          last_traces w ! ((nat (last_traces_first w) + k) mod MAX_LAST_TRACES)"
        by (simp add: f_def)
    qed
    moreover have "print_last_traces w =
        print_traces_wrapped f (N + l) (eprintf (print_the_last (N - f + l)) w)"
      using False ne by (simp add: print_last_traces_def f_def l_def N_def)
    ultimately show ?thesis
      unfolding hdr by (simp add: print_traces_wrapped_eq eprintf_def N_def)
  qed
qed

lemma record_traces_snoc:
  "record_traces (ts @ [(lv, m)]) w = print_rohc_traces lv m (record_traces ts w)"
  by (induction ts arbitrary: w) auto

lemma print_rohc_traces_last:
  "last_traces_last (print_rohc_traces lv m w) =
     (if last_traces_last w = -1 then 0
      else (last_traces_last w + 1) smod int MAX_LAST_TRACES)"
  by (simp add: print_rohc_traces_def Let_def printf_def)

lemma print_rohc_traces_slots:
  "last_traces (print_rohc_traces lv m w) =
     (last_traces w)[nat (last_traces_last (print_rohc_traces lv m w)) :=
        take MAX_TRACE_LEN m]"
  by (simp add: print_rohc_traces_def Let_def printf_def)

lemma print_rohc_traces_first:
  "last_traces_first (print_rohc_traces lv m w) =
     (if last_traces_first w = -1 then 0
      else if last_traces_first w = last_traces_last (print_rohc_traces lv m w)
      then (last_traces_first w + 1) smod int MAX_LAST_TRACES
      else last_traces_first w)"
  by (simp add: print_rohc_traces_def Let_def printf_def)

lemma print_rohc_traces_others:
  "stderr (print_rohc_traces lv m w) = stderr w"
  "dump_ops (print_rohc_traces lv m w) = dump_ops w"
  "lib_calls (print_rohc_traces lv m w) = lib_calls w"
  "stop_program (print_rohc_traces lv m w) = stop_program w"
  "is_verbose (print_rohc_traces lv m w) = is_verbose w"
  by (simp_all add: print_rohc_traces_def Let_def printf_def)

lemma ring_inv_init:
  assumes "last_traces w = replicate MAX_LAST_TRACES []"
    and "last_traces_first w = -1" and "last_traces_last w = -1"
  shows "ring_inv [] w"
  using assms by (simp add: ring_inv_def)

lemma ring_inv_step:
  assumes inv: "ring_inv ts w"
  shows "ring_inv (ts @ [(lv, m)]) (print_rohc_traces lv m w)"
proof -
  define N where "N = MAX_LAST_TRACES"
  define K where "K = length ts"
  define w' where "w' = print_rohc_traces lv m w"
  have N: "0 < N"
    by (simp add: N_def MAX_LAST_TRACES_def)
  have len: "length (last_traces w) = N"
    using inv by (simp add: ring_inv_def N_def)
  have old: "last_traces w ! (j mod N) = take MAX_TRACE_LEN (snd (ts ! j))"
    if "K - N \<le> j" "j < K" for j
    using inv that by (simp add: ring_inv_def N_def K_def)
  have last': "last_traces_last w' = int (K mod N)"
  proof (cases "ts = []")
    case True
    then show ?thesis
      using inv by (simp add: w'_def print_rohc_traces_last ring_inv_def K_def)
  next
    case False
    then have K: "0 < K" by (simp add: K_def)
    have l: "last_traces_last w = int ((K - 1) mod N)"
      using inv False by (simp add: ring_inv_def N_def K_def)
    have "(int ((K - 1) mod N) + 1) smod int N = (int ((K - 1) mod N) + 1) mod int N"
      using N by (intro smod_nonneg) simp_all
    also have "\<dots> = int (((K - 1) mod N + 1) mod N)"
      by (simp add: zmod_int add.commute)
    also have "((K - 1) mod N + 1) mod N = (K - 1 + 1) mod N"
      by (simp add: mod_Suc_eq)
    also have "K - 1 + 1 = K"
      using K by simp
    finally show ?thesis
      using l by (simp add: w'_def print_rohc_traces_last N_def)
  qed
  have slots': "last_traces w' = (last_traces w)[K mod N := take MAX_TRACE_LEN m]"
    using last' by (simp add: w'_def print_rohc_traces_slots)
  have first': "last_traces_first w' = int ((K + 1 - N) mod N)"
  proof (cases "ts = []")
    case True
    then have "last_traces_first w = -1" "K = 0"
      using inv by (simp_all add: ring_inv_def K_def)
    moreover have "Suc 0 - N = 0"
      using N by simp
    ultimately show ?thesis
      by (simp add: w'_def print_rohc_traces_first)
  next
    case False
    then have K: "0 < K" by (simp add: K_def)
    have f: "last_traces_first w = int ((K - N) mod N)"
      using inv False by (simp add: ring_inv_def N_def K_def)
    then have fne: "last_traces_first w \<noteq> -1"
      by simp
    show ?thesis
    proof (cases "K < N")
      case True
      then have "last_traces_first w \<noteq> last_traces_last w'"
        using f last' K by simp
      then have "last_traces_first w' = last_traces_first w"
        using fne by (simp add: w'_def print_rohc_traces_first)
      then show ?thesis
        using f True by simp
    next
      case False
      then have "(K - N) mod N = K mod N"
        by (simp add: le_mod_geq)
      then have eq: "last_traces_first w = last_traces_last w'"
        using f last' by simp
      have "(int (K mod N) + 1) smod int N = (int (K mod N) + 1) mod int N"
        using N by (intro smod_nonneg) simp_all
      also have "\<dots> = int ((K mod N + 1) mod N)"
        by (simp add: zmod_int add.commute)
      also have "(K mod N + 1) mod N = (K + 1) mod N"
        by (simp add: mod_Suc_eq)
      also have "\<dots> = (K + 1 - N) mod N"
        using False by (simp add: le_mod_geq)
      finally have "(last_traces_last w' + 1) smod int N = int ((K + 1 - N) mod N)"
        using last' by simp
      then show ?thesis
        using fne eq by (simp add: w'_def [symmetric] print_rohc_traces_first [of lv m w, folded w'_def] N_def)
    qed
  qed
  have new: "last_traces w' ! (j mod N) = take MAX_TRACE_LEN (snd ((ts @ [(lv, m)]) ! j))"
    if lo: "K + 1 - N \<le> j" and hi: "j < K + 1" for j
  proof (cases "j = K")
    case True
    then show ?thesis
      using N len by (simp add: slots' K_def)
  next
    case False
    then have jK: "j < K" using hi by simp
    have "j mod N \<noteq> K mod N"
    proof
      assume e: "j mod N = K mod N"
      have "(K - j) mod N = 0"
        using jK e by (metis mod_eq_dvd_iff_nat less_imp_le_nat mod_0_imp_dvd dvd_imp_mod_0 nat_less_le)
      moreover have "0 < K - j" "K - j < N"
        using jK lo by simp_all
      ultimately show False by simp
    qed
    then have "last_traces w' ! (j mod N) = last_traces w ! (j mod N)"
      by (simp add: slots')
    also have "\<dots> = take MAX_TRACE_LEN (snd (ts ! j))"
      using lo jK by (intro old) simp_all
    finally show ?thesis
      using jK by (simp add: nth_append K_def)
  qed
  show ?thesis
    unfolding ring_inv_def
    using len last' first' new
    by (simp add: w'_def [symmetric] slots' N_def [symmetric] K_def [symmetric])
qed

lemma ring_inv_record_traces:
  assumes "last_traces w = replicate MAX_LAST_TRACES []"
    and "last_traces_first w = -1" and "last_traces_last w = -1"
  shows "ring_inv ts (record_traces ts w)"
proof (induction ts rule: rev_induct)
  case Nil
  show ?case
    using assms by (simp add: ring_inv_init)
next
  case (snoc t ts)
  obtain lv m where t: "t = (lv, m)"
    by (cases t)
  show ?case
    unfolding t record_traces_snoc using snoc by (rule ring_inv_step)
qed

lemma record_traces_stderr: "stderr (record_traces ts w) = stderr w"
  by (induction ts arbitrary: w) (auto simp add: print_rohc_traces_others)

lemma ring_inv_wf:
  assumes "ring_inv ts w"
  shows "traces_wf w"
proof -
  have "0 < MAX_LAST_TRACES"
    by (simp add: MAX_LAST_TRACES_def)
  then have "int (k mod MAX_LAST_TRACES) < int MAX_LAST_TRACES" for k
    by simp
  then show ?thesis
    using assms unfolding ring_inv_def traces_wf_def
    by (cases "ts = []") simp_all
qed

lemma ring_inv_nonempty:
  assumes "ring_inv ts w" and "ts \<noteq> []"
  shows "last_traces_first w \<noteq> -1" and "last_traces_last w \<noteq> -1"
  using assms by (simp_all add: ring_inv_def)

lemma ring_inv_count:
  assumes inv: "ring_inv ts w"
  shows "ring_count w = min (length ts) MAX_LAST_TRACES"
proof (cases "ts = []")
  case True
  then show ?thesis
    using inv by (simp add: ring_inv_def ring_count_def)
next
  case False
  define N where "N = MAX_LAST_TRACES"
  define K where "K = length ts"
  have N: "0 < N"
    by (simp add: N_def MAX_LAST_TRACES_def)
  have K: "0 < K"
    using False by (simp add: K_def)
  have l: "last_traces_last w = int ((K - 1) mod N)"
    and f: "last_traces_first w = int ((K - N) mod N)"
    using inv False by (simp_all add: ring_inv_def N_def K_def)
  have "(last_traces_last w - last_traces_first w) mod int N =
      (int (K - 1) - int (K - N)) mod int N"
    unfolding l f by (simp add: zmod_int mod_diff_eq)
  also have "int (K - 1) - int (K - N) = int (min K N) - 1"
    using K N by (cases "K \<le> N") (simp_all add: of_nat_diff)
  also have "(int (min K N) - 1) mod int N = int (min K N) - 1"
    using K N by (intro mod_pos_pos_trivial) simp_all
  finally have "nat ((last_traces_last w - last_traces_first w) mod int N) + 1 = min K N"
    using K N by simp
  then show ?thesis
    using l f by (simp add: ring_count_def N_def K_def)
qed

lemma ring_inv_contents:
  assumes inv: "ring_inv ts w"
  shows "ring_contents w =
     map (\<lambda>t. take MAX_TRACE_LEN (snd t)) (drop (length ts - MAX_LAST_TRACES) ts)"
proof (cases "ts = []")
  case True
  then show ?thesis
    using inv by (simp add: ring_inv_def ring_contents_def ring_count_def)
next
  case False
  define N where "N = MAX_LAST_TRACES"
  define K where "K = length ts"
  have f: "nat (last_traces_first w) = (K - N) mod N"
    using inv False by (simp add: ring_inv_def N_def K_def)
  have slot: "last_traces w ! (j mod N) = take MAX_TRACE_LEN (snd (ts ! j))"
    if "K - N \<le> j" "j < K" for j
    using inv that by (simp add: ring_inv_def N_def K_def)
  show ?thesis
  proof (rule nth_equalityI)
    show "length (ring_contents w) =
        length (map (\<lambda>t. take MAX_TRACE_LEN (snd t)) (drop (length ts - MAX_LAST_TRACES) ts))"
      by (simp add: ring_contents_def ring_inv_count [OF inv])
  next
    fix i assume "i < length (ring_contents w)"
    then have i: "i < min K N"
      by (simp add: ring_contents_def ring_inv_count [OF inv] K_def N_def)
    then have j: "K - N \<le> K - N + i" "K - N + i < K"
      by linarith+
    have "ring_contents w ! i = last_traces w ! (((K - N) mod N + i) mod N)"
      using i by (simp add: ring_contents_def ring_inv_count [OF inv] f K_def N_def)
    also have "((K - N) mod N + i) mod N = (K - N + i) mod N"
      by (simp add: mod_add_left_eq)
    also have "last_traces w ! ((K - N + i) mod N) = take MAX_TRACE_LEN (snd (ts ! (K - N + i)))"
      using j by (rule slot)
    finally have "ring_contents w ! i = take MAX_TRACE_LEN (snd (ts ! (K - N + i)))" .
    moreover have "i < length (drop (K - N) ts)"
      using i by (simp add: K_def) linarith
    ultimately show "ring_contents w ! i =
        map (\<lambda>t. take MAX_TRACE_LEN (snd t)) (drop (length ts - MAX_LAST_TRACES) ts) ! i"
      by (simp add: K_def N_def)
  qed
qed

lemma length_ring_contents: "length (ring_contents w) = ring_count w"
  by (simp add: ring_contents_def)

lemma stderr_update: "stderr (x\<lparr>stderr := v\<rparr>) = v"
  by simp

text \<open>
  C5. After any sequence \<open>ts\<close> of traces recorded through the callback into the buffer as
  \<open>main\<close> initialises it, printing the buffer writes to the error stream the last
  \<open>min (length ts) MAX_LAST_TRACES\<close> recorded lines, oldest first, after one header line
  (or the no-trace message when nothing was recorded), each line as the callback stored
  it in its slot of \<open>MAX_TRACE_LEN\<close> characters; printing changes nothing but the error
  stream; and once the buffer is full the next trace is written into the slot of the
  oldest one, which leaves the buffer.
\<close>

theorem trace_ring_buffer_keeps_last_lines:
  assumes "last_traces w = replicate MAX_LAST_TRACES []"
    and "last_traces_first w = -1" and "last_traces_last w = -1"
  shows "print_last_traces (record_traces ts w) =
       (record_traces ts w)\<lparr>stderr := stderr w @
          (if ts = [] then [''no trace to display'' @ nl]
           else print_the_last (int (min (length ts) MAX_LAST_TRACES) - 1) #
                map (\<lambda>t. take MAX_TRACE_LEN (snd t))
                  (drop (length ts - min (length ts) MAX_LAST_TRACES) ts))\<rparr> \<and>
     (MAX_LAST_TRACES \<le> length ts \<longrightarrow>
        last_traces_last (print_rohc_traces lv m (record_traces ts w)) =
          last_traces_first (record_traces ts w) \<and>
        ring_contents (print_rohc_traces lv m (record_traces ts w)) =
          tl (ring_contents (record_traces ts w)) @ [take MAX_TRACE_LEN m])"
proof (intro conjI impI)
  define w' where "w' = record_traces ts w"
  have inv: "ring_inv ts w'"
    unfolding w'_def using assms by (rule ring_inv_record_traces)
  have err: "stderr w' = stderr w"
    by (simp add: w'_def record_traces_stderr)
  have d: "length ts - min (length ts) MAX_LAST_TRACES = length ts - MAX_LAST_TRACES"
    by simp
  show "print_last_traces w' =
       w'\<lparr>stderr := stderr w @
          (if ts = [] then [''no trace to display'' @ nl]
           else print_the_last (int (min (length ts) MAX_LAST_TRACES) - 1) #
                map (\<lambda>t. take MAX_TRACE_LEN (snd t))
                  (drop (length ts - min (length ts) MAX_LAST_TRACES) ts))\<rparr>"
  proof (cases "ts = []")
    case True
    then have "last_traces_first w' = -1 \<or> last_traces_last w' = -1"
      using inv by (simp add: ring_inv_def)
    then show ?thesis
      using True err by (simp add: print_last_traces_empty)
  next
    case False
    have "print_last_traces w' =
        w'\<lparr>stderr := stderr w' @ print_the_last (int (ring_count w') - 1) # ring_contents w'\<rparr>"
      using ring_inv_wf [OF inv] ring_inv_nonempty [OF inv False]
      by (rule print_last_traces_nonempty)
    then show ?thesis
      using False unfolding d ring_inv_count [OF inv] ring_inv_contents [OF inv] err
      by simp
  qed
  define w'' where "w'' = print_rohc_traces lv m w'"
  have inv': "ring_inv (ts @ [(lv, m)]) w''"
    unfolding w''_def using inv by (rule ring_inv_step)
  assume full: "MAX_LAST_TRACES \<le> length ts"
  then have ne: "ts \<noteq> []"
    by (auto simp add: MAX_LAST_TRACES_def)
  have "(length ts - MAX_LAST_TRACES) mod MAX_LAST_TRACES = length ts mod MAX_LAST_TRACES"
    using full by (simp add: le_mod_geq)
  then show "last_traces_last w'' = last_traces_first w'"
    using inv inv' ne by (simp add: ring_inv_def)
  have "drop (Suc (length ts) - MAX_LAST_TRACES) ts = tl (drop (length ts - MAX_LAST_TRACES) ts)"
    using full by (simp add: Suc_diff_le drop_Suc tl_drop)
  moreover have "Suc 0 - MAX_LAST_TRACES = 0"
    by (simp add: MAX_LAST_TRACES_def)
  ultimately show "ring_contents w'' = tl (ring_contents w') @ [take MAX_TRACE_LEN m]"
    using full
    by (simp add: ring_inv_contents [OF inv] ring_inv_contents [OF inv'] map_tl)
qed

theorem trace_ring_buffer_keeps_last_lines_witness:
  "last_traces (initial_world False) = replicate MAX_LAST_TRACES [] \<and>
   last_traces_first (initial_world False) = -1 \<and>
   last_traces_last (initial_world False) = -1 \<and>
   MAX_LAST_TRACES \<le>
     length (replicate 5000 (ROHC_TRACE_DEBUG, ''old'') @ [(ROHC_TRACE_DEBUG, ''new'')]) \<and>
   stderr (print_last_traces
      (record_traces (replicate 5000 (ROHC_TRACE_DEBUG, ''old'') @ [(ROHC_TRACE_DEBUG, ''new'')])
         (initial_world False))) =
     print_the_last 4999 # replicate 4999 ''old'' @ [''new''] \<and>
   last_traces_last (print_rohc_traces ROHC_TRACE_INFO ''next''
      (record_traces (replicate 5000 (ROHC_TRACE_DEBUG, ''old'') @ [(ROHC_TRACE_DEBUG, ''new'')])
         (initial_world False))) =
     last_traces_first
       (record_traces (replicate 5000 (ROHC_TRACE_DEBUG, ''old'') @ [(ROHC_TRACE_DEBUG, ''new'')])
         (initial_world False))"
proof -
  let ?w = "initial_world False"
  let ?ts = "replicate 5000 (ROHC_TRACE_DEBUG, ''old'') @ [(ROHC_TRACE_DEBUG, ''new'')]"
  have init: "last_traces ?w = replicate MAX_LAST_TRACES []"
    "last_traces_first ?w = -1" "last_traces_last ?w = -1"
    by (simp_all add: initial_world_def)
  have full: "MAX_LAST_TRACES \<le> length ?ts"
    by (simp add: MAX_LAST_TRACES_def)
  have kept: "map (\<lambda>t. take MAX_TRACE_LEN (snd t))
      (drop (length ?ts - min (length ?ts) MAX_LAST_TRACES) ?ts) =
      replicate 4999 ''old'' @ [''new'']"
    by (simp add: MAX_LAST_TRACES_def MAX_TRACE_LEN_def)
  have hdr: "int (min (length ?ts) MAX_LAST_TRACES) - 1 = 4999"
    by (simp add: MAX_LAST_TRACES_def)
  have ne: "?ts \<noteq> []"
    by simp
  have err0: "stderr ?w = []"
    by (simp add: initial_world_def)
  note inst = trace_ring_buffer_keeps_last_lines
    [OF init, of ?ts ROHC_TRACE_INFO "''next''"]
  have "stderr (print_last_traces (record_traces ?ts ?w)) =
      stderr ?w @
        (if ?ts = [] then [''no trace to display'' @ nl]
         else print_the_last (int (min (length ?ts) MAX_LAST_TRACES) - 1) #
              map (\<lambda>t. take MAX_TRACE_LEN (snd t))
                (drop (length ?ts - min (length ?ts) MAX_LAST_TRACES) ?ts))"
    by (subst inst [THEN conjunct1]) (rule stderr_update)
  then have drained: "stderr (print_last_traces (record_traces ?ts ?w)) =
      print_the_last 4999 # replicate 4999 ''old'' @ [''new'']"
    by (simp only: ne if_False kept hdr err0 append_Nil)
  have over:
    "last_traces_last (print_rohc_traces ROHC_TRACE_INFO ''next'' (record_traces ?ts ?w)) =
       last_traces_first (record_traces ?ts ?w)"
    using inst [THEN conjunct2, rule_format, OF full] by (rule conjunct1)
  show ?thesis
    by (intro conjI init full drained over)
qed

text \<open>
  C10. Whenever the buffer is printed while it is not empty, the error stream receives the
  header line \<open>print the last N traces...\<close> and then the trace lines, and the decimal
  number \<open>N\<close> that the header reports is one less than the number of trace lines that
  follow it.
\<close>

theorem print_last_traces_header_count:
  assumes "traces_wf w"
    and "last_traces_first w \<noteq> -1" and "last_traces_last w \<noteq> -1"
  shows "stderr (print_last_traces w) =
       stderr w @
       (''print the last '' @ show_int (int (length (ring_contents w)) - 1) @
          '' traces...'' @ [CHR 0x0A]) # ring_contents w \<and>
     int (dec_value (show_int (int (length (ring_contents w)) - 1))) =
       int (length (ring_contents w)) - 1 \<and>
     0 < length (ring_contents w)"
proof -
  have pos: "0 < length (ring_contents w)"
    using assms(2,3) by (simp add: length_ring_contents ring_count_def)
  then have "int (dec_value (show_int (int (length (ring_contents w)) - 1))) =
      int (length (ring_contents w)) - 1"
    by (intro dec_value_show_int) simp
  moreover have "stderr (print_last_traces w) =
      stderr w @
      (''print the last '' @ show_int (int (length (ring_contents w)) - 1) @
         '' traces...'' @ [CHR 0x0A]) # ring_contents w"
    using print_last_traces_nonempty [OF assms]
    by (simp add: length_ring_contents print_the_last_def nl_def)
  ultimately show ?thesis
    using pos by blast
qed

theorem print_last_traces_header_count_witness:
  "traces_wf (record_traces
      [(ROHC_TRACE_DEBUG, ''a''), (ROHC_TRACE_DEBUG, ''b''), (ROHC_TRACE_DEBUG, ''c'')]
      (initial_world False)) \<and>
   last_traces_first (record_traces
      [(ROHC_TRACE_DEBUG, ''a''), (ROHC_TRACE_DEBUG, ''b''), (ROHC_TRACE_DEBUG, ''c'')]
      (initial_world False)) \<noteq> -1 \<and>
   last_traces_last (record_traces
      [(ROHC_TRACE_DEBUG, ''a''), (ROHC_TRACE_DEBUG, ''b''), (ROHC_TRACE_DEBUG, ''c'')]
      (initial_world False)) \<noteq> -1 \<and>
   stderr (print_last_traces (record_traces
      [(ROHC_TRACE_DEBUG, ''a''), (ROHC_TRACE_DEBUG, ''b''), (ROHC_TRACE_DEBUG, ''c'')]
      (initial_world False))) =
     [''print the last 2 traces...'' @ [CHR 0x0A], ''a'', ''b'', ''c''] \<and>
   dec_value ''2'' = 2"
proof -
  let ?w = "record_traces
      [(ROHC_TRACE_DEBUG, ''a''), (ROHC_TRACE_DEBUG, ''b''), (ROHC_TRACE_DEBUG, ''c'')]
      (initial_world False)"
  have cur: "last_traces_first ?w = 0" "last_traces_last ?w = 2"
    and slots: "last_traces ?w =
      (replicate MAX_LAST_TRACES [])[0 := ''a'', 1 := ''b'', 2 := ''c'']"
    and err: "stderr ?w = []"
    by (simp_all add: print_rohc_traces_def Let_def initial_world_def MAX_LAST_TRACES_def
        MAX_TRACE_LEN_def smod_mod_positive)
  have wf: "traces_wf ?w"
    unfolding traces_wf_def cur slots by (simp add: MAX_LAST_TRACES_def)
  have ne: "last_traces_first ?w \<noteq> -1" "last_traces_last ?w \<noteq> -1"
    unfolding cur by simp_all
  have cnt: "ring_count ?w = 3"
    unfolding ring_count_def cur by (simp add: MAX_LAST_TRACES_def)
  have "[0 ..< 3] = [0, Suc 0, 2]"
    by (simp add: upt_rec)
  then have con: "ring_contents ?w = [''a'', ''b'', ''c'']"
    unfolding ring_contents_def cnt cur slots by (simp add: MAX_LAST_TRACES_def)
  have num: "show_int (int (length [''a'', ''b'', ''c'']) - 1) = ''2''"
    by (simp add: show_int_def show_nat.simps digit_char_def)
  note inst = print_last_traces_header_count [OF wf ne, unfolded con err num]
  have out: "stderr (print_last_traces ?w) =
      [''print the last 2 traces...'' @ [CHR 0x0A], ''a'', ''b'', ''c'']"
    using inst [THEN conjunct1] by simp
  have val: "dec_value ''2'' = 2"
    using inst [THEN conjunct2, THEN conjunct1] by simp
  show ?thesis
    by (intro conjI wf ne out val)
qed

subsection \<open>The packet comparator\<close>

lemma foldl_printf:
  "foldl (\<lambda>w k. printf (g k) w) w ks = w\<lparr>stdout := stdout w @ map g ks\<rparr>"
  by (induction ks arbitrary: w) (simp_all add: printf_def)

lemma print_row_eq:
  "print_row j str1 str2 w =
     w\<lparr>stdout := stdout w @
        map (\<lambda>k. if k < j + 1 then str1 ! k @ ''  '' else ''        '') [0 ..< 4] @
        [''      ''] @
        map (\<lambda>k. str2 ! k @ ''  '') [0 ..< j + 1] @
        [nl]\<rparr>"
proof -
  have "(\<lambda>w k. if k < j + 1 then printf (str1 ! k @ ''  '') w else printf ''        '' w) =
      (\<lambda>w k. printf (if k < j + 1 then str1 ! k @ ''  '' else ''        '') w)"
    by (intro ext) simp
  then show ?thesis
    unfolding print_row_def Let_def
    by (simp only: foldl_printf) (simp add: printf_def)
qed

text \<open>A formatted byte followed by its two blanks is a cell of the dump.\<close>

lemma sprintf_cell_dump_cell:
  "sprintf_cell (if pkt1 ! i \<noteq> pkt2 ! i then CHR ''#'' else CHR ''['') (pkt ! i)
      (if pkt1 ! i \<noteq> pkt2 ! i then CHR ''#'' else CHR '']'') @ ''  '' =
   dump_cell pkt pkt1 pkt2 i"
  by (simp add: sprintf_cell_def dump_cell_def)

text \<open>The row printed when the cells of the bytes \<open>lo .. lo + j\<close> are in the two arrays.\<close>

lemma print_row_dump_row:
  assumes j: "j < 4"
    and c1: "\<And>k. k \<le> j \<Longrightarrow> str1 ! k @ ''  '' = dump_cell pkt1 pkt1 pkt2 (lo + k)"
    and c2: "\<And>k. k \<le> j \<Longrightarrow> str2 ! k @ ''  '' = dump_cell pkt2 pkt1 pkt2 (lo + k)"
  shows "print_row j str1 str2 w =
     w\<lparr>stdout := stdout w @ dump_row pkt1 pkt2 lo (lo + j + 1)\<rparr>"
proof -
  have "(j + 1) + (4 - (j + 1)) = 4"
    using j by simp
  then have split: "[0 ..< 4] = [0 ..< j + 1] @ [j + 1 ..< 4]"
    using upt_add_eq_append [of 0 "j + 1" "4 - (j + 1)"] by simp
  have shift: "map f [lo ..< lo + j + 1] = map (\<lambda>k. f (lo + k)) [0 ..< j + 1]"
    for f :: "nat \<Rightarrow> string"
    by (rule nth_equalityI) (simp_all del: upt_Suc)
  have a: "map (\<lambda>k. if k < j + 1 then str1 ! k @ ''  '' else ''        '') [0 ..< j + 1] =
      map (dump_cell pkt1 pkt1 pkt2) [lo ..< lo + j + 1]"
    unfolding shift by (rule map_cong [OF refl]) (auto simp add: c1)
  have b: "map (\<lambda>k. if k < j + 1 then str1 ! k @ ''  '' else ''        '') [j + 1 ..< 4] =
      replicate (4 - (j + 1)) ''        ''"
    by (rule nth_equalityI) simp_all
  have c: "map (\<lambda>k. str2 ! k @ ''  '') [0 ..< j + 1] =
      map (dump_cell pkt2 pkt1 pkt2) [lo ..< lo + j + 1]"
    unfolding shift by (rule map_cong [OF refl]) (auto simp add: c2)
  have "map (\<lambda>k. if k < j + 1 then str1 ! k @ ''  '' else ''        '') [0 ..< 4] =
      map (dump_cell pkt1 pkt1 pkt2) [lo ..< lo + j + 1] @ replicate (4 - (j + 1)) ''        ''"
    unfolding split map_append a b ..
  then show ?thesis
    unfolding print_row_eq dump_row_def c by simp
qed

text \<open>
  The loop invariant: entered at byte \<open>i\<close> in column \<open>i mod 4\<close> with the cells of the
  earlier bytes of the row in the two arrays, the loop prints the rows of the dump from
  the row of \<open>i\<close> on.
\<close>

lemma compare_rows_eq:
  assumes "int i < min_size"
    and "j = i mod 4"
    and "\<And>k. k < j \<Longrightarrow> str1 ! k @ ''  '' = dump_cell pkt1 pkt1 pkt2 (i - j + k)"
    and "\<And>k. k < j \<Longrightarrow> str2 ! k @ ''  '' = dump_cell pkt2 pkt1 pkt2 (i - j + k)"
    and "length str1 = 4" and "length str2 = 4"
  shows "compare_rows pkt1 pkt2 min_size i j str1 str2 w =
     w\<lparr>stdout := stdout w @
        concat (map (\<lambda>r. dump_row pkt1 pkt2 (4 * r) (min (4 * r + 4) (nat min_size)))
          [i div 4 ..< (nat min_size + 3) div 4])\<rparr>"
  using assms
proof (induction "nat min_size - i" arbitrary: i j str1 str2 w rule: less_induct)
  case less
  define n where "n = nat min_size"
  define r where "r = i div 4"
  define lo where "lo = 4 * r"
  define R where "R = (n + 3) div 4"
  define row where "row = (\<lambda>r. dump_row pkt1 pkt2 (4 * r) (min (4 * r + 4) n))"
  define differs where "differs = (pkt1 ! i \<noteq> pkt2 ! i)"
  define s1 where "s1 = str1[j := sprintf_cell (if differs then CHR ''#'' else CHR ''['')
      (pkt1 ! i) (if differs then CHR ''#'' else CHR '']'')]"
  define s2 where "s2 = str2[j := sprintf_cell (if differs then CHR ''#'' else CHR ''['')
      (pkt2 ! i) (if differs then CHR ''#'' else CHR '']'')]"
  have i: "i < n" "i = lo + j" "j < 4"
    using less.prems(1,2) by (simp_all add: n_def lo_def r_def)
  have lens: "length s1 = 4" "length s2 = 4"
    using less.prems(5,6) by (simp_all add: s1_def s2_def)
  have cells1: "s1 ! k @ ''  '' = dump_cell pkt1 pkt1 pkt2 (lo + k)" if "k \<le> j" for k
  proof (cases "k = j")
    case True
    then show ?thesis
      using i less.prems(5) sprintf_cell_dump_cell [of pkt1 i pkt2 pkt1]
      by (simp add: s1_def differs_def)
  next
    case False
    then have "k < j" using that by simp
    then show ?thesis
      using less.prems(3) [of k] i False by (simp add: s1_def)
  qed
  have cells2: "s2 ! k @ ''  '' = dump_cell pkt2 pkt1 pkt2 (lo + k)" if "k \<le> j" for k
  proof (cases "k = j")
    case True
    then show ?thesis
      using i less.prems(6) sprintf_cell_dump_cell [of pkt1 i pkt2 pkt2]
      by (simp add: s2_def differs_def)
  next
    case False
    then have "k < j" using that by simp
    then show ?thesis
      using less.prems(4) [of k] i False by (simp add: s2_def)
  qed
  have rR: "r < R"
    using i by (simp add: R_def lo_def)
  show ?case
  proof (cases "j \<ge> 3 \<or> int (i + 1) \<ge> min_size")
    case True
    have step: "compare_rows pkt1 pkt2 min_size i j str1 str2 w =
        compare_rows pkt1 pkt2 min_size (i + 1) 0 s1 s2 (print_row j s1 s2 w)"
      using less.prems(1) True
      by (subst compare_rows.simps) (simp add: Let_def s1_def s2_def differs_def)
    have hi: "min (lo + 4) n = lo + j + 1"
      using True i by (auto simp add: n_def)
    have printed: "print_row j s1 s2 w = w\<lparr>stdout := stdout w @ row r\<rparr>"
      unfolding row_def hi lo_def [symmetric]
      using i(3) cells1 cells2 by (rule print_row_dump_row)
    show ?thesis
    proof (cases "int (i + 1) < min_size")
      case more: True
      then have j3: "j = 3"
        using True i by simp
      have "compare_rows pkt1 pkt2 min_size (i + 1) 0 s1 s2 (print_row j s1 s2 w) =
          (print_row j s1 s2 w)\<lparr>stdout := stdout (print_row j s1 s2 w) @
             concat (map row [(i + 1) div 4 ..< R])\<rparr>"
        unfolding row_def R_def n_def
      proof (rule less.hyps)
        show "nat min_size - (i + 1) < nat min_size - i"
          using less.prems(1) by simp
        show "int (i + 1) < min_size"
          by (rule more)
        show "0 = (i + 1) mod 4"
          using i j3 by (simp add: lo_def)
      qed (simp_all add: lens)
      moreover have "(i + 1) div 4 = r + 1"
        using i j3 by (simp add: lo_def)
      moreover have "[r ..< R] = r # [r + 1 ..< R]"
        using rR by (simp add: upt_conv_Cons)
      ultimately show ?thesis
        unfolding step printed
        by (simp add: row_def R_def n_def r_def)
    next
      case last: False
      have "compare_rows pkt1 pkt2 min_size (i + 1) 0 s1 s2 (print_row j s1 s2 w) =
          print_row j s1 s2 w"
        using last by (subst compare_rows.simps) simp
      moreover have "R = r + 1"
        using last i by (simp add: R_def n_def lo_def)
      ultimately show ?thesis
        unfolding step printed
        by (simp add: row_def R_def [symmetric] n_def [symmetric] r_def [symmetric])
    qed
  next
    case False
    then have j2: "j < 3" and more: "int (i + 1) < min_size"
      by simp_all
    have step: "compare_rows pkt1 pkt2 min_size i j str1 str2 w =
        compare_rows pkt1 pkt2 min_size (i + 1) (j + 1) s1 s2 w"
      using less.prems(1) False
      by (subst compare_rows.simps) (simp add: Let_def s1_def s2_def differs_def)
    have "compare_rows pkt1 pkt2 min_size (i + 1) (j + 1) s1 s2 w =
        w\<lparr>stdout := stdout w @ concat (map row [(i + 1) div 4 ..< R])\<rparr>"
      unfolding row_def R_def n_def
    proof (rule less.hyps)
      show "nat min_size - (i + 1) < nat min_size - i"
        using less.prems(1) by simp
      show "int (i + 1) < min_size"
        by (rule more)
      show "j + 1 = (i + 1) mod 4"
        using i j2 by (simp add: lo_def)
      show "s1 ! k @ ''  '' = dump_cell pkt1 pkt1 pkt2 (i + 1 - (j + 1) + k)"
        if "k < j + 1" for k
        using cells1 [of k] that i by simp
      show "s2 ! k @ ''  '' = dump_cell pkt2 pkt1 pkt2 (i + 1 - (j + 1) + k)"
        if "k < j + 1" for k
        using cells2 [of k] that i by simp
    qed (simp_all add: lens)
    moreover have "(i + 1) div 4 = r"
      using i j2 by (simp add: lo_def)
    ultimately show ?thesis
      unfolding step by (simp add: row_def R_def n_def r_def)
  qed
qed

lemma hex_dump_0: "hex_dump pkt1 pkt2 0 = []"
  by (simp add: hex_dump_def)

lemma compare_packets_equal:
  "compare_packets P (int (length P)) P (int (length P)) w = (1, w)"
  by (simp add: compare_packets_def)

text \<open>What the comparator prints and returns when the two packets are not equal.\<close>

lemma compare_packets_differ:
  assumes "\<not> (pkt1_size = pkt2_size \<and> take (nat pkt1_size) pkt1 = take (nat pkt1_size) pkt2)"
  shows "compare_packets pkt1 pkt1_size pkt2 pkt2_size w =
     (0, w\<lparr>stdout := stdout w @ compare_banner pkt1_size pkt2_size @
            hex_dump pkt1 pkt2 (nat (min 180 (min pkt1_size pkt2_size))) @
            [compare_footer]\<rparr>)"
proof -
  have loop: "compare_rows pkt1 pkt2 min_size 0 0 (replicate 4 []) (replicate 4 []) w3 =
      w3\<lparr>stdout := stdout w3 @ hex_dump pkt1 pkt2 (nat min_size)\<rparr>" for min_size w3
  proof (cases "0 < min_size")
    case True
    then show ?thesis
      using compare_rows_eq [where i = 0 and j = 0 and min_size = min_size and w = w3
          and ?str1.0 = "replicate 4 []" and ?str2.0 = "replicate 4 []"
          and ?pkt1.0 = pkt1 and ?pkt2.0 = pkt2]
      by (simp add: hex_dump_def del: replicate.simps)
  next
    case False
    then show ?thesis
      by (subst compare_rows.simps) (simp add: hex_dump_0)
  qed
  show ?thesis
    using assms
    by (cases "pkt1_size = pkt2_size")
       (simp_all add: compare_packets_def Let_def loop compare_banner_def compare_footer_def
          printf_def del: replicate.simps)
qed

lemma length_concat_uniform:
  assumes "\<And>q. q < r \<Longrightarrow> length (f q) = m"
  shows "length (concat (map f [0 ..< r])) = m * r"
  using assms by (induction r) simp_all

lemma nth_concat_uniform:
  assumes uni: "\<And>q. q < r \<Longrightarrow> length (f q) = m"
    and r: "r < R" and k: "k < length (f r)"
  shows "concat (map f [0 ..< R]) ! (m * r + k) = f r ! k"
proof -
  have "[0 ..< R] = [0 ..< r] @ r # [Suc r ..< R]"
    using r by (metis le_add1 less_imp_add_positive upt_add_eq_append upt_conv_Cons
        add.left_neutral less_imp_le_nat le_add_diff_inverse)
  then have "concat (map f [0 ..< R]) =
      concat (map f [0 ..< r]) @ f r @ concat (map f [Suc r ..< R])"
    by simp
  then show ?thesis
    using k by (simp add: nth_append length_concat_uniform [of r f m, OF uni])
qed

lemma length_dump_row:
  assumes "lo \<le> hi" and "hi \<le> lo + 4"
  shows "length (dump_row pkt1 pkt2 lo hi) = 6 + (hi - lo)"
  using assms by (simp add: dump_row_def)

text \<open>Where the two cells of byte \<open>i\<close> stand in the dump of the first \<open>n\<close> bytes.\<close>

lemma hex_dump_nth:
  assumes i: "i < n"
  shows "hex_dump pkt1 pkt2 n ! (10 * (i div 4) + i mod 4) = dump_cell pkt1 pkt1 pkt2 i"
    and "hex_dump pkt1 pkt2 n ! (10 * (i div 4) + (5 + i mod 4)) = dump_cell pkt2 pkt1 pkt2 i"
    and "10 * (i div 4) + (5 + i mod 4) < length (hex_dump pkt1 pkt2 n)"
proof -
  define r where "r = i div 4"
  define k where "k = i mod 4"
  define row where "row = (\<lambda>r. dump_row pkt1 pkt2 (4 * r) (min (4 * r + 4) n))"
  define hi where "hi = min (4 * r + 4) n"
  have ik: "i = 4 * r + k" "k < 4"
    by (simp_all add: r_def k_def)
  have full: "length (row q) = 10" if "q < r" for q
  proof -
    have "4 * q + 4 \<le> n"
      using that i ik by linarith
    then show ?thesis
      by (simp add: row_def dump_row_def min_def)
  qed
  have rR: "r < (n + 3) div 4"
    using i ik by linarith
  have hi: "4 * r + k < hi" "hi \<le> 4 * r + 4"
    using i ik by (simp_all add: hi_def)
  define d where "d = hi - 4 * r"
  have d: "k < d" "d \<le> 4"
    using hi by (simp_all add: d_def)
  define pre where "pre = map (dump_cell pkt1 pkt1 pkt2) [4 * r ..< hi] @
      replicate (4 - d) ''        '' @ [''      '']"
  define post where "post = map (dump_cell pkt2 pkt1 pkt2) [4 * r ..< hi] @ [nl]"
  have rowr: "row r = pre @ post"
    by (simp add: row_def dump_row_def hi_def [symmetric] pre_def post_def d_def)
  have lpre: "length pre = 5"
    using d by (simp add: pre_def d_def [symmetric])
  have first: "row r ! k = dump_cell pkt1 pkt1 pkt2 i"
    using d ik hi by (simp add: rowr pre_def nth_append d_def [symmetric])
  have "row r ! (length pre + k) = post ! k"
    unfolding rowr by (rule nth_append_length_plus)
  then have second: "row r ! (5 + k) = dump_cell pkt2 pkt1 pkt2 i"
    using d ik hi by (simp add: lpre post_def nth_append d_def [symmetric])
  have len: "5 + k < length (row r)"
    using d by (simp add: rowr lpre post_def d_def [symmetric])
  then have len1: "k < length (row r)"
    by simp
  show "hex_dump pkt1 pkt2 n ! (10 * (i div 4) + i mod 4) = dump_cell pkt1 pkt1 pkt2 i"
    unfolding hex_dump_def row_def [symmetric] r_def [symmetric] k_def [symmetric]
    using nth_concat_uniform [of r row 10 "(n + 3) div 4" k, OF full rR len1] first
    by simp
  show "hex_dump pkt1 pkt2 n ! (10 * (i div 4) + (5 + i mod 4)) = dump_cell pkt2 pkt1 pkt2 i"
    unfolding hex_dump_def row_def [symmetric] r_def [symmetric] k_def [symmetric]
    using nth_concat_uniform [of r row 10 "(n + 3) div 4" "5 + k", OF full rR len] second
    by simp
  have "[0 ..< (n + 3) div 4] = [0 ..< r] @ r # [Suc r ..< (n + 3) div 4]"
    using rR by (metis le_add1 less_imp_add_positive upt_add_eq_append upt_conv_Cons
        add.left_neutral less_imp_le_nat le_add_diff_inverse)
  then have "length (hex_dump pkt1 pkt2 n) \<ge> length (concat (map row [0 ..< r])) + length (row r)"
    unfolding hex_dump_def row_def [symmetric] by simp
  then show "10 * (i div 4) + (5 + i mod 4) < length (hex_dump pkt1 pkt2 n)"
    using len length_concat_uniform [of r row 10, OF full]
    by (simp add: r_def [symmetric] k_def [symmetric])
qed

lemma digit_char_not_hash:
  assumes "d < 16"
  shows "digit_char d \<noteq> CHR ''#''"
proof -
  have "digit_char d \<in> set ''0123456789abcdef''"
    unfolding digit_char_def using assms by (intro nth_mem) simp
  then show ?thesis
    by auto
qed

lemma show_hex2_no_hash: "CHR ''#'' \<notin> set (show_hex2 b)"
proof -
  have "unat b < 2 ^ LENGTH(8)"
    by (rule unsigned_less)
  then have "unat b < 256"
    by simp
  then have "unat b div 16 < 16" and "unat b mod 16 < 16"
    by simp_all
  then show ?thesis
    using digit_char_not_hash [of "unat b div 16"] digit_char_not_hash [of "unat b mod 16"]
    by (auto simp add: show_hex2_def)
qed

text \<open>A dump of bytes that all agree has no \<open>#\<close> sign.\<close>

lemma hex_dump_no_mark:
  assumes same: "\<And>i. i < n \<Longrightarrow> pkt1 ! i = pkt2 ! i"
  shows "CHR ''#'' \<notin> set (concat (hex_dump pkt1 pkt2 n))"
proof -
  have cell: "CHR ''#'' \<notin> set (dump_cell pkt pkt1 pkt2 i)" if "i < n" for pkt i
    using same [OF that] show_hex2_no_hash [of "pkt ! i"]
    by (simp add: dump_cell_def)
  have row: "CHR ''#'' \<notin> set (concat (dump_row pkt1 pkt2 lo hi))" if "hi \<le> n" for lo hi
  proof -
    have "i < n" if "i \<in> set [lo ..< hi]" for i
      using that \<open>hi \<le> n\<close> by simp
    then show ?thesis
      using cell by (auto simp add: dump_row_def nl_def)
  qed
  have "CHR ''#'' \<notin> set (concat (dump_row pkt1 pkt2 (4 * r) (min (4 * r + 4) n)))" for r
    by (rule row) simp
  then show ?thesis
    by (auto simp add: hex_dump_def)
qed

text \<open>
  C4, the claim as stated fails: two packets of 181 bytes that differ in their last byte
  only are reported as different, and nothing in what is printed marks a byte, since the
  dump stops after 180 bytes.
\<close>

theorem compare_packets_marks_counterexample:
  "replicate 181 (0 :: byte) \<noteq> replicate 180 0 @ [1] \<and>
   replicate 181 (0 :: byte) ! 180 \<noteq> (replicate 180 0 @ [1]) ! 180 \<and>
   fst (compare_packets (replicate 181 0) 181 (replicate 180 0 @ [1]) 181
          (initial_world False)) = 0 \<and>
   CHR ''#'' \<notin> set (concat (stdout (snd
     (compare_packets (replicate 181 0) 181 (replicate 180 0 @ [1]) 181
        (initial_world False)))))"
proof -
  let ?P = "replicate 181 (0 :: byte)" and ?Q = "replicate 180 (0 :: byte) @ [1]"
  have last: "?P ! 180 \<noteq> ?Q ! 180"
    by (simp add: nth_append)
  then have ne: "?P \<noteq> ?Q"
    by metis
  have "take 181 ?P = ?P" "take 181 ?Q = ?Q"
    by simp_all
  then have diff: "\<not> ((181 :: int) = 181 \<and> take (nat 181) ?P = take (nat 181) ?Q)"
    using ne by simp
  have same: "?P ! i = ?Q ! i" if "i < 180" for i
    using that by (simp add: nth_append)
  have out: "compare_packets ?P 181 ?Q 181 (initial_world False) =
      (0, (initial_world False)\<lparr>stdout := stdout (initial_world False) @
            compare_banner 181 181 @ hex_dump ?P ?Q 180 @ [compare_footer]\<rparr>)"
    using compare_packets_differ [OF diff, of "initial_world False"] by simp
  have "CHR ''#'' \<notin> set (concat (hex_dump ?P ?Q 180))"
    using same by (rule hex_dump_no_mark)
  then have "CHR ''#'' \<notin> set (concat (stdout (snd
      (compare_packets ?P 181 ?Q 181 (initial_world False)))))"
    unfolding out
    by (simp add: initial_world_def compare_banner_def compare_footer_def nl_def)
  moreover have "fst (compare_packets ?P 181 ?Q 181 (initial_world False)) = 0"
    unfolding out by simp
  ultimately show ?thesis
    using last ne by blast
qed

text \<open>
  C4, amended. For every payload \<open>P\<close>, \<open>compare_packets\<close> of \<open>P\<close> with itself returns equal
  and prints nothing. For every pair of different payloads \<open>P\<close> and \<open>P'\<close> it returns not-equal
  and prints exactly the banner, the dump of the first \<open>n = min 180 (min (length P) (length P'))\<close>
  bytes and the closing line, and nothing else. In that dump every byte \<open>i < n\<close> has one cell
  per packet, in row \<open>i div 4\<close> and column \<open>i mod 4\<close> of either half: the byte in two
  hexadecimal digits, between \<open>#\<close> signs exactly when the two payloads differ at position \<open>i\<close>
  and between brackets when they agree. Bytes from \<open>n\<close> on are not printed, so a difference
  there is marked nowhere.
\<close>

theorem compare_packets_marks_compared_bytes:
  "compare_packets P (int (length P)) P (int (length P)) w = (1, w) \<and>
   (P \<noteq> P' \<longrightarrow>
      compare_packets P (int (length P)) P' (int (length P')) w =
        (0, w\<lparr>stdout := stdout w @
                 compare_banner (int (length P)) (int (length P')) @
                 hex_dump P P' (min 180 (min (length P) (length P'))) @
                 [compare_footer]\<rparr>) \<and>
      (\<forall>i < min 180 (min (length P) (length P')).
         hex_dump P P' (min 180 (min (length P) (length P'))) ! (10 * (i div 4) + i mod 4) =
           (if P ! i \<noteq> P' ! i then ''#0x'' @ show_hex2 (P ! i) @ ''#  ''
            else ''[0x'' @ show_hex2 (P ! i) @ '']  '') \<and>
         hex_dump P P' (min 180 (min (length P) (length P'))) ! (10 * (i div 4) + (5 + i mod 4)) =
           (if P ! i \<noteq> P' ! i then ''#0x'' @ show_hex2 (P' ! i) @ ''#  ''
            else ''[0x'' @ show_hex2 (P' ! i) @ '']  '') \<and>
         hex_value (show_hex2 (P ! i)) = unat (P ! i) \<and>
         hex_value (show_hex2 (P' ! i)) = unat (P' ! i)))"
proof (intro conjI impI allI)
  show "compare_packets P (int (length P)) P (int (length P)) w = (1, w)"
    by (rule compare_packets_equal)
next
  assume ne: "P \<noteq> P'"
  have diff: "\<not> (int (length P) = int (length P') \<and>
      take (nat (int (length P))) P = take (nat (int (length P))) P')"
    using ne by auto
  have n: "nat (min 180 (min (int (length P)) (int (length P')))) =
      min 180 (min (length P) (length P'))"
    by simp
  show "compare_packets P (int (length P)) P' (int (length P')) w =
      (0, w\<lparr>stdout := stdout w @
               compare_banner (int (length P)) (int (length P')) @
               hex_dump P P' (min 180 (min (length P) (length P'))) @
               [compare_footer]\<rparr>)"
    using compare_packets_differ [OF diff, of w] unfolding n .
next
  fix i assume i: "i < min 180 (min (length P) (length P'))"
  show "hex_dump P P' (min 180 (min (length P) (length P'))) ! (10 * (i div 4) + i mod 4) =
      (if P ! i \<noteq> P' ! i then ''#0x'' @ show_hex2 (P ! i) @ ''#  ''
       else ''[0x'' @ show_hex2 (P ! i) @ '']  '')"
    unfolding hex_dump_nth(1) [OF i] by (simp add: dump_cell_def)
  show "hex_dump P P' (min 180 (min (length P) (length P'))) ! (10 * (i div 4) + (5 + i mod 4)) =
      (if P ! i \<noteq> P' ! i then ''#0x'' @ show_hex2 (P' ! i) @ ''#  ''
       else ''[0x'' @ show_hex2 (P' ! i) @ '']  '')"
    unfolding hex_dump_nth(2) [OF i] by (simp add: dump_cell_def)
  show "hex_value (show_hex2 (P ! i)) = unat (P ! i)"
    by (rule hex_value_show_hex2)
  show "hex_value (show_hex2 (P' ! i)) = unat (P' ! i)"
    by (rule hex_value_show_hex2)
qed

theorem compare_packets_marks_compared_bytes_witness:
  "[1, 2, 3, 4, 5 :: byte] \<noteq> [1, 2, 9, 4, 5, 6] \<and>
   (2 :: nat) < min 180 (min (length [1, 2, 3, 4, 5 :: byte]) (length [1, 2, 9, 4, 5, 6 :: byte])) \<and>
   fst (compare_packets [1, 2, 3, 4, 5] 5 [1, 2, 9, 4, 5, 6] 6 (initial_world False)) = 0 \<and>
   stdout (snd (compare_packets [1, 2, 3, 4, 5] 5 [1, 2, 9, 4, 5, 6] 6 (initial_world False))) =
     [''------------------------------ Compare ------------------------------'' @ [CHR 0x0A],
      ''--------- reference ----------         ----------- new --------------'' @ [CHR 0x0A],
      ''packets have different sizes (5 != 6), compare only the 5 first bytes'' @ [CHR 0x0A],
      ''[0x01]  '', ''[0x02]  '', ''#0x03#  '', ''[0x04]  '', ''      '',
      ''[0x01]  '', ''[0x02]  '', ''#0x09#  '', ''[0x04]  '', [CHR 0x0A],
      ''[0x05]  '', ''        '', ''        '', ''        '', ''      '',
      ''[0x05]  '', [CHR 0x0A],
      ''----------------------- packets are different -----------------------'' @ [CHR 0x0A]] \<and>
   hex_dump [1, 2, 3, 4, 5] [1, 2, 9, 4, 5, 6] 5 ! 2 = ''#0x03#  '' \<and>
   hex_dump [1, 2, 3, 4, 5] [1, 2, 9, 4, 5, 6] 5 ! 7 = ''#0x09#  '' \<and>
   hex_value ''03'' = 3 \<and> hex_value ''09'' = 9"
proof -
  let ?P = "[1, 2, 3, 4, 5 :: byte]" and ?Q = "[1, 2, 9, 4, 5, 6 :: byte]"
  have ne: "?P \<noteq> ?Q"
    by simp
  have i: "(2 :: nat) < min 180 (min (length ?P) (length ?Q))"
    by simp
  have len: "int (length ?P) = 5" "int (length ?Q) = 6"
    "min 180 (min (length ?P) (length ?Q)) = 5"
    by simp_all
  have idx: "10 * ((2 :: nat) div 4) + 2 mod 4 = 2" "10 * ((2 :: nat) div 4) + (5 + 2 mod 4) = 7"
    by simp_all
  have elt: "?P ! 2 = 3" "?Q ! 2 = 9"
    by simp_all
  have hex: "show_hex2 (3 :: byte) = ''03''" "show_hex2 (9 :: byte) = ''09''"
    by (simp_all add: show_hex2_def digit_char_def)
  have rows: "[0 ..< (5 + 3) div 4] = [0, Suc 0]"
    by (simp add: upt_rec)
  have rep: "replicate 3 s = [s, s, s]" for s :: string
    by (simp add: numeral_3_eq_3)
  have dump: "hex_dump ?P ?Q 5 =
      [''[0x01]  '', ''[0x02]  '', ''#0x03#  '', ''[0x04]  '', ''      '',
       ''[0x01]  '', ''[0x02]  '', ''#0x09#  '', ''[0x04]  '', [CHR 0x0A],
       ''[0x05]  '', ''        '', ''        '', ''        '', ''      '',
       ''[0x05]  '', [CHR 0x0A]]"
    unfolding hex_dump_def rows
    by (simp add: dump_row_def dump_cell_def show_hex2_def digit_char_def nl_def upt_rec rep)
  have banner: "compare_banner 5 6 =
      [''------------------------------ Compare ------------------------------'' @ [CHR 0x0A],
       ''--------- reference ----------         ----------- new --------------'' @ [CHR 0x0A],
       ''packets have different sizes (5 != 6), compare only the 5 first bytes'' @ [CHR 0x0A]]"
    by (simp add: compare_banner_def show_int_def show_nat.simps digit_char_def nl_def)
  note inst = compare_packets_marks_compared_bytes [of ?P "initial_world False" ?Q,
      THEN conjunct2, rule_format, OF ne, unfolded len]
  note whole = inst [THEN conjunct1]
  note cells = inst [THEN conjunct2, rule_format, OF i [unfolded len], unfolded idx elt hex]
  have ret: "fst (compare_packets ?P 5 ?Q 6 (initial_world False)) = 0"
    unfolding whole by simp
  have out: "stdout (snd (compare_packets ?P 5 ?Q 6 (initial_world False))) =
      [''------------------------------ Compare ------------------------------'' @ [CHR 0x0A],
       ''--------- reference ----------         ----------- new --------------'' @ [CHR 0x0A],
       ''packets have different sizes (5 != 6), compare only the 5 first bytes'' @ [CHR 0x0A],
       ''[0x01]  '', ''[0x02]  '', ''#0x03#  '', ''[0x04]  '', ''      '',
       ''[0x01]  '', ''[0x02]  '', ''#0x09#  '', ''[0x04]  '', [CHR 0x0A],
       ''[0x05]  '', ''        '', ''        '', ''        '', ''      '',
       ''[0x05]  '', [CHR 0x0A],
       ''----------------------- packets are different -----------------------'' @ [CHR 0x0A]]"
    unfolding whole dump banner
    by (simp add: initial_world_def compare_footer_def nl_def)
  have c1: "hex_dump ?P ?Q 5 ! 2 = ''#0x03#  ''"
    using cells [THEN conjunct1] by simp
  have c2: "hex_dump ?P ?Q 5 ! 7 = ''#0x09#  ''"
    using cells [THEN conjunct2, THEN conjunct1] by simp
  have v1: "hex_value ''03'' = 3"
    using cells [THEN conjunct2, THEN conjunct2, THEN conjunct1] by simp
  have v2: "hex_value ''09'' = 9"
    using cells [THEN conjunct2, THEN conjunct2, THEN conjunct2] by simp
  show ?thesis
    by (intro conjI ne i ret out c1 c2 v1 v2)
qed

subsection \<open>The compress/decompress pipeline\<close>

text \<open>What printing and logging leave unchanged.\<close>

lemma printf_fields [simp]:
  "stderr (printf t w) = stderr w"
  "stdout (printf t w) = stdout w @ [t]"
  "lib_calls (printf t w) = lib_calls w"
  "dump_ops (printf t w) = dump_ops w"
  "stop_program (printf t w) = stop_program w"
  "last_traces (printf t w) = last_traces w"
  "last_traces_first (printf t w) = last_traces_first w"
  "last_traces_last (printf t w) = last_traces_last w"
  by (simp_all add: printf_def)

lemma eprintf_fields [simp]:
  "stderr (eprintf t w) = stderr w @ [t]"
  "stdout (eprintf t w) = stdout w"
  "lib_calls (eprintf t w) = lib_calls w"
  "dump_ops (eprintf t w) = dump_ops w"
  "stop_program (eprintf t w) = stop_program w"
  "last_traces (eprintf t w) = last_traces w"
  "last_traces_first (eprintf t w) = last_traces_first w"
  "last_traces_last (eprintf t w) = last_traces_last w"
  by (simp_all add: eprintf_def)

lemma log_dump_fields [simp]:
  "stderr (log_dump d w) = stderr w"
  "stdout (log_dump d w) = stdout w"
  "lib_calls (log_dump d w) = lib_calls w"
  "dump_ops (log_dump d w) = dump_ops w @ [d]"
  "stop_program (log_dump d w) = stop_program w"
  "last_traces (log_dump d w) = last_traces w"
  "last_traces_first (log_dump d w) = last_traces_first w"
  "last_traces_last (log_dump d w) = last_traces_last w"
  by (simp_all add: log_dump_def)

lemma log_call_fields [simp]:
  "stderr (log_call c w) = stderr w"
  "stdout (log_call c w) = stdout w"
  "lib_calls (log_call c w) = lib_calls w @ [c]"
  "dump_ops (log_call c w) = dump_ops w"
  "stop_program (log_call c w) = stop_program w"
  "last_traces (log_call c w) = last_traces w"
  "last_traces_first (log_call c w) = last_traces_first w"
  "last_traces_last (log_call c w) = last_traces_last w"
  by (simp_all add: log_call_def)

lemma record_traces_fields [simp]:
  "stderr (record_traces ts w) = stderr w"
  "lib_calls (record_traces ts w) = lib_calls w"
  "dump_ops (record_traces ts w) = dump_ops w"
  "stop_program (record_traces ts w) = stop_program w"
  by (induction ts arbitrary: w) (auto simp add: print_rohc_traces_others)

lemma compare_packets_world:
  "\<exists>out. snd (compare_packets pkt1 size1 pkt2 size2 w) = w\<lparr>stdout := stdout w @ out\<rparr>"
proof (cases "size1 = size2 \<and> take (nat size1) pkt1 = take (nat size1) pkt2")
  case True
  then have "snd (compare_packets pkt1 size1 pkt2 size2 w) = w\<lparr>stdout := stdout w @ []\<rparr>"
    by (auto simp add: compare_packets_def Let_def)
  then show ?thesis ..
next
  case False
  have "snd (compare_packets pkt1 size1 pkt2 size2 w) =
      w\<lparr>stdout := stdout w @ (compare_banner size1 size2 @
        hex_dump pkt1 pkt2 (nat (min 180 (min size1 size2))) @ [compare_footer])\<rparr>"
    by (simp add: compare_packets_differ [OF False])
  then show ?thesis ..
qed

lemma compare_packets_fields [simp]:
  "stderr (snd (compare_packets pkt1 size1 pkt2 size2 w)) = stderr w"
  "lib_calls (snd (compare_packets pkt1 size1 pkt2 size2 w)) = lib_calls w"
  "dump_ops (snd (compare_packets pkt1 size1 pkt2 size2 w)) = dump_ops w"
  "stop_program (snd (compare_packets pkt1 size1 pkt2 size2 w)) = stop_program w"
  "last_traces (snd (compare_packets pkt1 size1 pkt2 size2 w)) = last_traces w"
  "last_traces_first (snd (compare_packets pkt1 size1 pkt2 size2 w)) = last_traces_first w"
  "last_traces_last (snd (compare_packets pkt1 size1 pkt2 size2 w)) = last_traces_last w"
proof -
  obtain out where e: "snd (compare_packets pkt1 size1 pkt2 size2 w) = w\<lparr>stdout := stdout w @ out\<rparr>"
    using compare_packets_world by blast
  show "stderr (snd (compare_packets pkt1 size1 pkt2 size2 w)) = stderr w"
    "lib_calls (snd (compare_packets pkt1 size1 pkt2 size2 w)) = lib_calls w"
    "dump_ops (snd (compare_packets pkt1 size1 pkt2 size2 w)) = dump_ops w"
    "stop_program (snd (compare_packets pkt1 size1 pkt2 size2 w)) = stop_program w"
    "last_traces (snd (compare_packets pkt1 size1 pkt2 size2 w)) = last_traces w"
    "last_traces_first (snd (compare_packets pkt1 size1 pkt2 size2 w)) = last_traces_first w"
    "last_traces_last (snd (compare_packets pkt1 size1 pkt2 size2 w)) = last_traces_last w"
    unfolding e by simp_all
qed

text \<open>The ring buffer stays well formed.\<close>

lemma traces_wf_cong:
  assumes "last_traces w' = last_traces w"
    and "last_traces_first w' = last_traces_first w"
    and "last_traces_last w' = last_traces_last w"
  shows "traces_wf w' = traces_wf w"
  using assms by (simp add: traces_wf_def)

lemma traces_wf_simps [simp]:
  "traces_wf (printf t w) = traces_wf w"
  "traces_wf (eprintf t w) = traces_wf w"
  "traces_wf (log_dump d w) = traces_wf w"
  "traces_wf (log_call c w) = traces_wf w"
  "traces_wf (snd (compare_packets pkt1 size1 pkt2 size2 w)) = traces_wf w"
  by (rule traces_wf_cong; simp)+

lemma traces_wf_print_rohc_traces:
  assumes wf: "traces_wf w"
  shows "traces_wf (print_rohc_traces lv m w)"
proof -
  define N where "N = int MAX_LAST_TRACES"
  define w' where "w' = print_rohc_traces lv m w"
  have N: "0 < N"
    by (simp add: N_def MAX_LAST_TRACES_def)
  have next_in: "0 \<le> (x + 1) smod N \<and> (x + 1) smod N < N" if "0 \<le> x" for x
    using that N by (simp add: smod_nonneg)
  have old: "last_traces_last w = -1 \<or> 0 \<le> last_traces_last w"
    "last_traces_first w = -1 \<or> 0 \<le> last_traces_first w \<and> last_traces_first w < N"
    using wf by (auto simp add: traces_wf_def N_def)
  have l: "0 \<le> last_traces_last w' \<and> last_traces_last w' < N"
  proof (cases "last_traces_last w = -1")
    case True
    then show ?thesis
      using N by (simp add: w'_def print_rohc_traces_last)
  next
    case False
    then show ?thesis
      using old(1) next_in [of "last_traces_last w"]
      by (simp add: w'_def print_rohc_traces_last N_def)
  qed
  have f: "0 \<le> last_traces_first w' \<and> last_traces_first w' < N"
  proof (cases "last_traces_first w = -1")
    case True
    then show ?thesis
      using N by (simp add: w'_def print_rohc_traces_first)
  next
    case False
    then have rng: "0 \<le> last_traces_first w" "last_traces_first w < N"
      using old(2) by simp_all
    show ?thesis
    proof (cases "last_traces_first w = last_traces_last w'")
      case True
      then have "last_traces_first w' = (last_traces_first w + 1) smod N"
        using False by (simp add: w'_def print_rohc_traces_first N_def)
      then show ?thesis
        using next_in [OF rng(1)] by simp
    next
      case neq: False
      then have "last_traces_first w' = last_traces_first w"
        using False by (simp add: w'_def print_rohc_traces_first)
      then show ?thesis
        using rng by simp
    qed
  qed
  have "length (last_traces w') = MAX_LAST_TRACES"
    using wf by (simp add: w'_def print_rohc_traces_slots traces_wf_def)
  then show ?thesis
    using l f unfolding traces_wf_def w'_def [symmetric] N_def by blast
qed

lemma traces_wf_record_traces:
  "traces_wf w \<Longrightarrow> traces_wf (record_traces ts w)"
  by (induction ts arbitrary: w) (auto simp add: traces_wf_print_rohc_traces)

text \<open>A 16-bit field read through \<open>ntohs\<close> is its big-endian value on either host.\<close>

lemma be16_uint:
  "uint (push_bit 8 (ucast (a :: byte)) OR ucast (b :: byte) :: 16 word) = 256 * uint a + uint b"
proof -
  have a: "uint a < 256" and b: "uint b < 256"
    using uint_lt2p [of a] uint_lt2p [of b] by simp_all
  have ua: "uint (ucast a :: 16 word) = uint a" and ub: "uint (ucast b :: 16 word) = uint b"
    by (simp_all add: uint_up_ucast is_up)
  have "push_bit 8 (uint a) < 2 ^ 16"
    using a by (simp add: push_bit_eq_mult)
  then have pa: "uint (push_bit 8 (ucast a :: 16 word)) = push_bit 8 (uint a)"
    by (simp add: unsigned_push_bit_eq ua take_bit_int_eq_self)
  have "push_bit 8 (uint a) + uint b = push_bit 8 (uint a) OR uint b"
  proof (rule disjunctive_add)
    fix n
    show "\<not> bit (push_bit 8 (uint a)) n \<or> \<not> bit (uint b) n"
    proof (cases "n < 8")
      case True
      then show ?thesis by (simp add: bit_push_bit_iff)
    next
      case False
      then have "\<not> bit b n"
        by (auto dest: bit_imp_le_length)
      then show ?thesis by (simp add: bit_uint_iff)
    qed
  qed
  then have "uint (push_bit 8 (ucast a) OR ucast b :: 16 word) = push_bit 8 (uint a) + uint b"
    by (simp only: uint_or pa ub)
  then show ?thesis
    by (simp add: push_bit_eq_mult)
qed

lemma ntohs_load_u16:
  "uint (ntohs bo (load_u16 bo buf off)) = 256 * uint (buf ! off) + uint (buf ! (off + 1))"
proof -
  have "ntohs bo (load_u16 bo buf off) =
      push_bit 8 (ucast (buf ! off)) OR ucast (buf ! (off + 1))"
    by (cases bo; simp add: ntohs_def load_u16_def; rule bit_word_eqI;
        auto simp add: bit_simps dest: bit_imp_le_length)
  then show ?thesis
    by (simp only: be16_uint)
qed

lemma high_nibble: "(drop_bit 4 (b :: byte)) AND 0x0f = drop_bit 4 b"
proof -
  have m: "(0x0f :: byte) = mask 4"
    by (simp add: mask_eq_exp_minus_1)
  show ?thesis
    unfolding m
    by (rule bit_word_eqI) (auto simp add: bit_simps dest: bit_imp_le_length)
qed

text \<open>The size that the check for padding leaves, and what it leaves unchanged.\<close>

lemma check_padding_size:
  "fst (check_padding bo header ip_packet link_len_src ip_size w) =
     (if link_len_src = ETHER_HDR_LEN \<and> len header = ETHER_FRAME_MIN_LEN \<and>
         true_total_length ip_packet < ip_size
      then true_total_length ip_packet
      else ip_size)"
  by (simp add: check_padding_def Let_def high_nibble ntohs_load_u16 true_total_length_def
      sizeof_ip6_hdr_def)

lemma check_padding_world [simp]:
  "lib_calls (snd (check_padding bo header ip_packet link_len_src ip_size w)) = lib_calls w"
  "dump_ops (snd (check_padding bo header ip_packet link_len_src ip_size w)) = dump_ops w"
  "traces_wf (snd (check_padding bo header ip_packet link_len_src ip_size w)) = traces_wf w"
  by (simp_all add: check_padding_def Let_def)

lemma compression_failed_world [simp]:
  "lib_calls (glob (snd (compression_failed env header packet p))) = lib_calls (glob p)"
  "traces_wf (glob (snd (compression_failed env header packet p))) = traces_wf (glob p)"
  by (simp_all add: compression_failed_def Let_def split: option.split)

lemma dump_in_context_world [simp]:
  "lib_calls (glob (snd (dump_in_context env header packet info p))) = lib_calls (glob p)"
  "traces_wf (glob (snd (dump_in_context env header packet info p))) = traces_wf (glob p)"
  by (simp_all add: dump_in_context_def Let_def split: option.split)

text \<open>The calls of the later stages come after the ones already made.\<close>

lemma decompress_and_compare_world:
  "\<exists>calls. lib_calls (glob (snd (decompress_and_compare env ip_packet ip_size rohc_packet
      rohc_size p))) = lib_calls (glob p) @ calls"
  "traces_wf (glob p) \<Longrightarrow>
     traces_wf (glob (snd (decompress_and_compare env ip_packet ip_size rohc_packet rohc_size p)))"
proof -
  obtain e2 decomp_size decomp_packet traces2
    where d: "rohc_decompress env (rohc p) rohc_packet rohc_size =
      (e2, decomp_size, decomp_packet, traces2)"
    by (cases "rohc_decompress env (rohc p) rohc_packet rohc_size") auto
  define w5 where "w5 = record_traces traces2
      (log_call (Rohc_decompress rohc_packet rohc_size) (glob p))"
  obtain valid w6
    where c: "compare_packets ip_packet ip_size decomp_packet decomp_size w5 = (valid, w6)"
    by (cases "compare_packets ip_packet ip_size decomp_packet decomp_size w5") auto
  have w6: "lib_calls w6 = lib_calls w5" "traces_wf w6 = traces_wf w5"
    using compare_packets_fields(2) [of ip_packet ip_size decomp_packet decomp_size w5]
      traces_wf_simps(5) [of ip_packet ip_size decomp_packet decomp_size w5]
    by (simp_all add: c)
  have w5: "lib_calls w5 = lib_calls (glob p) @ [Rohc_decompress rohc_packet rohc_size]"
    by (simp add: w5_def)
  show "\<exists>calls. lib_calls (glob (snd (decompress_and_compare env ip_packet ip_size rohc_packet
      rohc_size p))) = lib_calls (glob p) @ calls"
    by (simp add: decompress_and_compare_def Let_def d w5_def [symmetric] c w5 w6)
  assume "traces_wf (glob p)"
  then have "traces_wf w5"
    by (simp add: w5_def traces_wf_record_traces)
  then show "traces_wf (glob (snd (decompress_and_compare env ip_packet ip_size rohc_packet
      rohc_size p)))"
    by (simp add: decompress_and_compare_def Let_def d w5_def [symmetric] c w6)
qed

lemma dump_and_decompress_world:
  "\<exists>calls. lib_calls (glob (snd (dump_and_decompress env header packet ip_packet ip_size
      rohc_packet rohc_size p))) = lib_calls (glob p) @ calls"
  "traces_wf (glob p) \<Longrightarrow>
     traces_wf (glob (snd (dump_and_decompress env header packet ip_packet ip_size
       rohc_packet rohc_size p)))"
proof -
  define p1 where "p1 = p\<lparr>glob := log_call Rohc_comp_get_last_packet_info2 (glob p)\<rparr>"
  have p1: "lib_calls (glob p1) = lib_calls (glob p) @ [Rohc_comp_get_last_packet_info2]"
    "traces_wf (glob p1) = traces_wf (glob p)"
    by (simp_all add: p1_def)
  show "\<exists>calls. lib_calls (glob (snd (dump_and_decompress env header packet ip_packet ip_size
      rohc_packet rohc_size p))) = lib_calls (glob p) @ calls"
  proof (cases "rohc_comp_get_last_packet_info2 env (rohc p)")
    case None
    then show ?thesis
      by (simp add: dump_and_decompress_def p1_def [symmetric] p1)
  next
    case (Some info)
    obtain r p3 where dc: "dump_in_context env header packet info p1 = (r, p3)"
      by (cases "dump_in_context env header packet info p1") auto
    have p3: "lib_calls (glob p3) = lib_calls (glob p1)"
      using dump_in_context_world(1) [of env header packet info p1] by (simp add: dc)
    show ?thesis
    proof (cases r)
      case None
      obtain calls where "lib_calls (glob (snd (decompress_and_compare env ip_packet ip_size
          rohc_packet rohc_size (p3\<lparr>cid := context_id info\<rparr>)))) =
          lib_calls (glob (p3\<lparr>cid := context_id info\<rparr>)) @ calls"
        using decompress_and_compare_world(1) by blast
      then show ?thesis
        using Some None by (simp add: dump_and_decompress_def p1_def [symmetric] dc p3 p1)
    next
      case died: (Some e)
      then show ?thesis
        using Some by (simp add: dump_and_decompress_def p1_def [symmetric] dc p3 p1)
    qed
  qed
  assume wf: "traces_wf (glob p)"
  show "traces_wf (glob (snd (dump_and_decompress env header packet ip_packet ip_size
      rohc_packet rohc_size p)))"
  proof (cases "rohc_comp_get_last_packet_info2 env (rohc p)")
    case None
    then show ?thesis
      using wf by (simp add: dump_and_decompress_def p1_def [symmetric] p1)
  next
    case (Some info)
    obtain r p3 where dc: "dump_in_context env header packet info p1 = (r, p3)"
      by (cases "dump_in_context env header packet info p1") auto
    have p3: "traces_wf (glob p3)"
      using dump_in_context_world(2) [of env header packet info p1] wf by (simp add: dc p1)
    show ?thesis
    proof (cases r)
      case None
      have "traces_wf (glob (snd (decompress_and_compare env ip_packet ip_size
          rohc_packet rohc_size (p3\<lparr>cid := context_id info\<rparr>))))"
        using p3 by (intro decompress_and_compare_world(2)) simp
      then show ?thesis
        using Some None by (simp add: dump_and_decompress_def p1_def [symmetric] dc)
    next
      case died: (Some e)
      then show ?thesis
        using Some p3 by (simp add: dump_and_decompress_def p1_def [symmetric] dc)
    qed
  qed
qed

text \<open>
  A packet whose lengths pass the first test reaches the library: the first call that
  \<open>compress_decompress\<close> makes is \<open>rohc_compress\<close> on the packet after its link layer
  header, with the size that the check for padding left.
\<close>

lemma compress_decompress_valid:
  assumes ok: "\<not> (len header \<le> word_of_int link_len_src \<or> len header \<noteq> caplen header)"
  shows "\<exists>calls. lib_calls (glob (snd (compress_decompress bo env header packet link_len_src p))) =
     lib_calls (glob p) @
     Rohc_compress (drop (nat link_len_src) packet)
       (fst (check_padding bo header (drop (nat link_len_src) packet) link_len_src
          (sint (len header - word_of_int link_len_src)) (glob p))) # calls"
    and "traces_wf (glob p) \<Longrightarrow>
     traces_wf (glob (snd (compress_decompress bo env header packet link_len_src p)))"
proof -
  define ip_packet where "ip_packet = drop (nat link_len_src) packet"
  obtain ip_size w1
    where cp: "check_padding bo header ip_packet link_len_src
      (sint (len header - word_of_int link_len_src)) (glob p) = (ip_size, w1)"
    by (cases "check_padding bo header ip_packet link_len_src
      (sint (len header - word_of_int link_len_src)) (glob p)") auto
  have w1: "lib_calls w1 = lib_calls (glob p)" "traces_wf w1 = traces_wf (glob p)"
    using check_padding_world(1,3) [of bo header ip_packet link_len_src
        "sint (len header - word_of_int link_len_src)" "glob p"]
    by (simp_all add: cp)
  obtain e1 rohc_size rohc_packet traces1
    where rc: "rohc_compress env (rohc p) ip_packet ip_size =
      (e1, rohc_size, rohc_packet, traces1)"
    by (cases "rohc_compress env (rohc p) ip_packet ip_size") auto
  define p2 where "p2 = p\<lparr>rohc := e1,
      glob := record_traces traces1 (log_call (Rohc_compress ip_packet ip_size) w1)\<rparr>"
  have p2: "lib_calls (glob p2) = lib_calls (glob p) @ [Rohc_compress ip_packet ip_size]"
    by (simp add: p2_def w1)
  have unfold: "compress_decompress bo env header packet link_len_src p =
      (if rohc_size \<le> 0 then compression_failed env header packet p2
       else dump_and_decompress env header packet ip_packet ip_size rohc_packet rohc_size p2)"
  proof -
    have cond: "(len header \<le> word_of_int link_len_src \<or> len header \<noteq> caplen header) = False"
      using ok by blast
    show ?thesis
      by (simp only: compress_decompress_def cond if_False)
         (simp add: Let_def ip_packet_def [symmetric] cp rc p2_def)
  qed
  obtain calls where calls: "lib_calls (glob (snd (dump_and_decompress env header packet
      ip_packet ip_size rohc_packet rohc_size p2))) = lib_calls (glob p2) @ calls"
    using dump_and_decompress_world(1) by blast
  have "fst (check_padding bo header ip_packet link_len_src
      (sint (len header - word_of_int link_len_src)) (glob p)) = ip_size"
    by (simp add: cp)
  then show "\<exists>calls. lib_calls (glob (snd (compress_decompress bo env header packet
      link_len_src p))) =
     lib_calls (glob p) @
     Rohc_compress (drop (nat link_len_src) packet)
       (fst (check_padding bo header (drop (nat link_len_src) packet) link_len_src
          (sint (len header - word_of_int link_len_src)) (glob p))) # calls"
    unfolding unfold ip_packet_def [symmetric]
    using calls by (cases "rohc_size \<le> 0") (simp_all add: p2)
  assume "traces_wf (glob p)"
  then have "traces_wf (glob p2)"
    by (simp add: p2_def w1 traces_wf_record_traces)
  then show "traces_wf (glob (snd (compress_decompress bo env header packet link_len_src p)))"
    unfolding unfold
    by (cases "rohc_size \<le> 0") (simp_all add: dump_and_decompress_world(2))
qed

lemma compress_decompress_malformed:
  assumes "len header \<le> word_of_int link_len_src \<or> len header \<noteq> caplen header"
  shows "compress_decompress bo env header packet link_len_src p =
     (Inr (-3),
      p\<lparr>glob := eprintf (''bad PCAP packet (len = '' @ show_int (sint (len header)) @
         '', caplen = '' @ show_int (sint (caplen header)) @ '')'' @ nl) (glob p)\<rparr>)"
  using assms unfolding compress_decompress_def by (rule if_P)

lemma compress_decompress_traces_wf:
  assumes "traces_wf (glob p)"
  shows "traces_wf (glob (snd (compress_decompress bo env header packet link_len_src p)))"
proof (cases "len header \<le> word_of_int link_len_src \<or> len header \<noteq> caplen header")
  case True
  then show ?thesis
    using assms by (simp add: compress_decompress_malformed)
next
  case False
  then show ?thesis
    using assms by (rule compress_decompress_valid(2))
qed

text \<open>The three link layer lengths that \<open>sniff\<close> passes, and the size of the stripped packet.\<close>

lemma link_len_src_word:
  assumes "link_len_src \<in> {0, ETHER_HDR_LEN, LINUX_COOKED_HDR_LEN}"
  shows "uint (word_of_int link_len_src :: 32 word) = link_len_src"
    and "0 \<le> link_len_src"
  using assms by (auto simp add: ETHER_HDR_LEN_def LINUX_COOKED_HDR_LEN_def)

lemma stripped_size:
  assumes link: "link_len_src \<in> {0, ETHER_HDR_LEN, LINUX_COOKED_HDR_LEN}"
    and longer: "link_len_src < uint (len header)"
    and small: "uint (len header) < 2 ^ 31"
  shows "sint (len header - word_of_int link_len_src) = uint (len header) - link_len_src"
    and "\<not> len header \<le> word_of_int link_len_src"
proof -
  note l = link_len_src_word [OF link]
  have "uint (word_of_int link_len_src :: 32 word) \<le> uint (len header)"
    using longer l(1) by simp
  then have u: "uint (len header - word_of_int link_len_src) = uint (len header) - link_len_src"
    using uint_sub_lem [of "word_of_int link_len_src" "len header"] l(1) by simp
  have "sint (len header - word_of_int link_len_src) =
      signed_take_bit 31 (uint (len header) - link_len_src)"
    by (simp add: sint_uint u)
  also have "\<dots> = uint (len header) - link_len_src"
    using longer small l(2) by (intro signed_take_bit_int_eq_self) simp_all
  finally show "sint (len header - word_of_int link_len_src) = uint (len header) - link_len_src" .
  show "\<not> len header \<le> word_of_int link_len_src"
    using longer l(1) by (simp add: word_le_def)
qed

lemma link_len_of_cases:
  "link_len_of link_layer_type_src \<in> {0, ETHER_HDR_LEN, LINUX_COOKED_HDR_LEN}"
  "link_len_of link_layer_type_src = ETHER_HDR_LEN \<longleftrightarrow> link_layer_type_src = DLT_EN10MB"
  by (cases link_layer_type_src; simp add: ETHER_HDR_LEN_def LINUX_COOKED_HDR_LEN_def)+

text \<open>
  C6. A frame whose declared length does not exceed the length of the link layer header,
  or differs from its captured length, makes \<open>compress_decompress\<close> return -3 (counted as
  a bad packet by \<open>sniff\<close>): the library is not called and keeps its state, the array of
  dumpers and the dump files are untouched.
\<close>

theorem malformed_capture_rejected:
  assumes "uint (len header) \<le> link_len_of link_layer_type_src \<or> len header \<noteq> caplen header"
  shows "fst (compress_decompress bo env header packet (link_len_of link_layer_type_src) p) =
       Inr (-3) \<and>
     lib_calls (glob (snd (compress_decompress bo env header packet
       (link_len_of link_layer_type_src) p))) = lib_calls (glob p) \<and>
     rohc (snd (compress_decompress bo env header packet
       (link_len_of link_layer_type_src) p)) = rohc p \<and>
     dumpers (snd (compress_decompress bo env header packet
       (link_len_of link_layer_type_src) p)) = dumpers p \<and>
     dump_ops (glob (snd (compress_decompress bo env header packet
       (link_len_of link_layer_type_src) p))) = dump_ops (glob p)"
proof -
  have "len header \<le> word_of_int (link_len_of link_layer_type_src) \<or>
      len header \<noteq> caplen header"
    using assms link_len_src_word(1) [OF link_len_of_cases(1), of link_layer_type_src]
    by (auto simp add: word_le_def)
  then show ?thesis
    by (simp add: compress_decompress_malformed)
qed

theorem malformed_capture_rejected_witness:
  "(uint (len \<lparr>caplen = 50, len = 60\<rparr>) \<le> link_len_of DLT_EN10MB \<or>
    len \<lparr>caplen = 50, len = 60\<rparr> \<noteq> caplen \<lparr>caplen = 50, len = 60\<rparr>) \<and>
   fst (compress_decompress LittleEndian copy_lib \<lparr>caplen = 50, len = 60\<rparr>
          (replicate 50 0) (link_len_of DLT_EN10MB) new_process) = Inr (-3) \<and>
   lib_calls (glob (snd (compress_decompress LittleEndian copy_lib \<lparr>caplen = 50, len = 60\<rparr>
          (replicate 50 0) (link_len_of DLT_EN10MB) new_process))) = [] \<and>
   dumpers (snd (compress_decompress LittleEndian copy_lib \<lparr>caplen = 50, len = 60\<rparr>
          (replicate 50 0) (link_len_of DLT_EN10MB) new_process)) = replicate 16 None"
proof -
  have b: "uint (len \<lparr>caplen = 50, len = 60\<rparr>) \<le> link_len_of DLT_EN10MB \<or>
      len \<lparr>caplen = 50, len = 60\<rparr> \<noteq> caplen \<lparr>caplen = 50, len = 60\<rparr>"
    by simp
  show ?thesis
    using malformed_capture_rejected [OF b, of LittleEndian copy_lib "replicate 50 0" new_process]
      b
    by (simp add: new_process_def initial_world_def)
qed



text \<open>
  C9. In the check for padding of a minimal Ethernet frame, the version nibble 4 selects
  the total length field of the IPv4 header (bytes 2 and 3); every other nibble selects
  40 plus the payload length field of the IPv6 header (bytes 4 and 5), whatever the
  packet is. The size handed to \<open>rohc_compress\<close> is that length when it is below the 46
  bytes of the stripped frame.
\<close>

theorem padding_check_layout_by_version_nibble:
  assumes "len header = ETHER_FRAME_MIN_LEN" and "caplen header = ETHER_FRAME_MIN_LEN"
  shows "\<exists>calls.
     lib_calls (glob (snd (compress_decompress bo env header packet
       (link_len_of DLT_EN10MB) p))) =
       lib_calls (glob p) @
       Rohc_compress (drop 14 packet)
         (if drop_bit 4 (drop 14 packet ! 0) = 4
          then min 46 (256 * uint (drop 14 packet ! 2) + uint (drop 14 packet ! 3))
          else min 46 (40 + (256 * uint (drop 14 packet ! 4) + uint (drop 14 packet ! 5))))
       # calls"
proof -
  have a: "ETHER_HDR_LEN \<in> {0, ETHER_HDR_LEN, LINUX_COOKED_HDR_LEN}"
    by simp
  have b: "ETHER_HDR_LEN < uint (len header)"
    by (simp add: assms ETHER_HDR_LEN_def ETHER_FRAME_MIN_LEN_def)
  have c: "len header = caplen header"
    by (simp add: assms)
  have d: "uint (len header) < 2 ^ 31"
    by (simp add: assms ETHER_FRAME_MIN_LEN_def)
  have size: "uint (len header) - ETHER_HDR_LEN = 46"
    by (simp add: assms ETHER_HDR_LEN_def ETHER_FRAME_MIN_LEN_def)
  have n: "nat ETHER_HDR_LEN = 14"
    by (simp add: ETHER_HDR_LEN_def)
  obtain calls where
    "lib_calls (glob (snd (compress_decompress bo env header packet
       (link_len_of DLT_EN10MB) p))) =
       lib_calls (glob p) @
       Rohc_compress (drop 14 packet)
         (if true_total_length (drop 14 packet) < 46
          then true_total_length (drop 14 packet) else 46) # calls"
    using compress_decompress_valid(1) [of header ETHER_HDR_LEN bo env packet p]
      stripped_size [OF a b d] c
    unfolding check_padding_size size n
    by (auto simp add: assms)
  moreover have "(if true_total_length (drop 14 packet) < 46
      then true_total_length (drop 14 packet) else 46) =
      (if drop_bit 4 (drop 14 packet ! 0) = 4
       then min 46 (256 * uint (drop 14 packet ! 2) + uint (drop 14 packet ! 3))
       else min 46 (40 + (256 * uint (drop 14 packet ! 4) + uint (drop 14 packet ! 5))))"
    by (simp add: true_total_length_def min_def)
  ultimately show ?thesis
    by auto
qed

theorem padding_check_layout_by_version_nibble_witness:
  "len \<lparr>caplen = 60, len = 60\<rparr> = ETHER_FRAME_MIN_LEN \<and>
   caplen \<lparr>caplen = 60, len = 60\<rparr> = ETHER_FRAME_MIN_LEN \<and>
   (\<exists>calls.
      lib_calls (glob (snd (compress_decompress BigEndian copy_lib \<lparr>caplen = 60, len = 60\<rparr>
        (min_frame 0x00 0x01 0x08 0x00 0x00 0x02) (link_len_of DLT_EN10MB) new_process))) =
      Rohc_compress ([0x00, 0x01, 0x08, 0x00, 0x00, 0x02] @ replicate 40 0) 42 # calls)"
proof -
  let ?h = "\<lparr>caplen = 60, len = 60\<rparr> :: pcap_pkthdr"
  have a: "len ?h = ETHER_FRAME_MIN_LEN" and b: "caplen ?h = ETHER_FRAME_MIN_LEN"
    by (simp_all add: ETHER_FRAME_MIN_LEN_def)
  have ip: "drop 14 (min_frame 0x00 0x01 0x08 0x00 0x00 0x02) =
      [0x00, 0x01, 0x08, 0x00, 0x00, 0x02] @ replicate 40 0"
    by (simp add: min_frame_def)
  have e: "lib_calls (glob new_process) = []"
    by (simp add: new_process_def initial_world_def)
  show ?thesis
    using padding_check_layout_by_version_nibble [OF a b, of BigEndian copy_lib
        "min_frame 0x00 0x01 0x08 0x00 0x00 0x02" new_process] a b
    unfolding ip e
    by (simp add: drop_bit_eq_div)
qed

subsection \<open>The capture loop\<close>

lemma ring_count_0: "ring_count w = 0 \<longleftrightarrow> last_traces_first w = -1 \<or> last_traces_last w = -1"
  by (simp add: ring_count_def)

text \<open>What printing the recorded traces adds to the error stream, empty buffer or not.\<close>

lemma print_last_traces_eq:
  assumes "traces_wf w"
  shows "print_last_traces w =
     w\<lparr>stderr := stderr w @
        (if ring_count w = 0 then [''no trace to display'' @ nl]
         else print_the_last (int (ring_count w) - 1) # ring_contents w)\<rparr>"
proof (cases "ring_count w = 0")
  case True
  then show ?thesis
    by (simp add: ring_count_0 print_last_traces_empty)
next
  case False
  then have "last_traces_first w \<noteq> -1" "last_traces_last w \<noteq> -1"
    by (simp_all add: ring_count_0)
  with assms have "print_last_traces w =
      w\<lparr>stderr := stderr w @ print_the_last (int (ring_count w) - 1) # ring_contents w\<rparr>"
    by (rule print_last_traces_nonempty)
  then show ?thesis
    using False by simp
qed

lemma begin_packet_traces_wf: "traces_wf (glob (snd (begin_packet st p))) = traces_wf (glob p)"
  by (simp add: begin_packet_def Let_def)

lemma begin_packet_stats: "fst (begin_packet st p) = st\<lparr>counter := counter st + 1\<rparr>"
  by (simp add: begin_packet_def Let_def)

text \<open>The statistics after the chain of tests, counter by counter.\<close>

lemma count_result_fields:
  "count_result ret st =
     st\<lparr>nb_ok := nb_ok st + (if ret = 1 then 1 else 0),
        err_comp := err_comp st + (if ret = -1 then 1 else 0),
        err_decomp := err_decomp st + (if ret = -2 then 1 else 0),
        nb_ref := nb_ref st + (if ret = 0 then 1 else 0),
        nb_bad := nb_bad st + (if ret = -3 then 1 else 0),
        nb_internal_err := nb_internal_err st +
          (if ret = -1 \<or> ret = -2 \<or> ret = 0 \<or> ret = 1 \<or> ret = -3 then 0 else 1)\<rparr>"
  by (simp add: count_result_def)

subsection \<open>Two failing runs\<close>

text \<open>
  The first packet of a raw IP capture, four bytes long, handed to a new process: once with
  the library whose decompressor fails, once with the library whose compressor fails while
  no dump file can be opened.
\<close>

lemma begin_first:
  "begin_packet zero_stats new_process =
     (zero_stats\<lparr>counter := 1\<rparr>,
      new_process\<lparr>cid := 0, glob := printf ''packet #1'' (glob new_process)\<rparr>)"
  by (simp add: begin_packet_def Let_def zero_stats_def show_nat.simps digit_char_def)

lemma first_trace:
  assumes "last_traces_first w = -1" and "last_traces_last w = -1"
  shows "last_traces_first (print_rohc_traces lv m w) = 0"
    and "last_traces_last (print_rohc_traces lv m w) = 0"
    and "last_traces (print_rohc_traces lv m w) = (last_traces w)[0 := take MAX_TRACE_LEN m]"
  using assms by (simp_all add: print_rohc_traces_def Let_def printf_def)

lemma second_trace:
  assumes "last_traces_first w = 0" and "last_traces_last w = 0"
  shows "last_traces_first (print_rohc_traces lv m w) = 0"
    and "last_traces_last (print_rohc_traces lv m w) = 1"
    and "last_traces (print_rohc_traces lv m w) = (last_traces w)[1 := take MAX_TRACE_LEN m]"
  using assms
  by (simp_all add: print_rohc_traces_def Let_def printf_def MAX_LAST_TRACES_def
      smod_mod_positive)

lemma no_decomp_compress:
  "compress_decompress LittleEndian no_decomp_lib \<lparr>caplen = 4, len = 4\<rparr>
     [0x45, 0, 0, 4] (link_len_of DLT_RAW) p =
   dump_and_decompress no_decomp_lib \<lparr>caplen = 4, len = 4\<rparr> [0x45, 0, 0, 4] [0x45, 0, 0, 4] 4
     [0x45, 0, 0, 4] 4
     (p\<lparr>rohc := rohc p + 1,
        glob := print_rohc_traces ROHC_TRACE_DEBUG (''compress'' @ nl)
                  (log_call (Rohc_compress [0x45, 0, 0, 4] 4) (glob p))\<rparr>)"
  by (simp add: compress_decompress_def Let_def no_decomp_lib_def copy_lib_def
      check_padding_def ETHER_HDR_LEN_def)

lemma no_decomp_dump:
  assumes "rohc p = 1" and "dumpers p = replicate 16 None"
  shows "dump_and_decompress no_decomp_lib h pkt ip n rp rn p =
   decompress_and_compare no_decomp_lib ip n rp rn
     (p\<lparr>dumpers := (replicate 16 None)[0 := Some (Dumper (dump_filename 0))],
        glob := log_dump (Pcap_dump (Dumper (dump_filename 0)) h pkt)
                 (log_dump (Pcap_dump_open (dump_filename 0))
                   (log_call Rohc_comp_get_last_packet_info2 (glob p))),
        cid := 0\<rparr>)"
  using assms
  by (simp add: dump_and_decompress_def dump_in_context_def Let_def no_decomp_lib_def
      copy_lib_def)

lemma no_decomp_decompress:
  "decompress_and_compare no_decomp_lib ip n rp rn p =
     (Inr (-2), p\<lparr>glob := eprintf (''decompression failed'' @ nl)
        (print_rohc_traces ROHC_TRACE_ERROR (''cannot decompress'' @ nl)
           (log_call (Rohc_decompress rp rn) (glob p)))\<rparr>)"
  by (simp add: decompress_and_compare_def Let_def no_decomp_lib_def copy_lib_def)

lemma run_no_decomp:
  fixes r
  defines "r \<equiv> compress_decompress LittleEndian no_decomp_lib \<lparr>caplen = 4, len = 4\<rparr>
     [0x45, 0, 0, 4] (link_len_of DLT_RAW)
     (new_process\<lparr>cid := 0, glob := printf ''packet #1'' (glob new_process)\<rparr>)"
  shows "fst r = Inr (-2)"
    and "cid (snd r) = 0"
    and "stderr (glob (snd r)) = [''decompression failed'' @ nl]"
    and "last_traces_first (glob (snd r)) = 0"
    and "last_traces_last (glob (snd r)) = 1"
    and "last_traces (glob (snd r)) =
      (replicate MAX_LAST_TRACES [])[0 := ''compress'' @ nl, 1 := ''cannot decompress'' @ nl]"
proof -
  let ?p = "new_process\<lparr>cid := 0, glob := printf ''packet #1'' (glob new_process)\<rparr>"
  let ?wA = "print_rohc_traces ROHC_TRACE_DEBUG (''compress'' @ nl)
      (log_call (Rohc_compress [0x45, 0, 0, 4] 4) (glob ?p))"
  let ?pA = "?p\<lparr>rohc := rohc ?p + 1, glob := ?wA\<rparr>"
  let ?wB = "log_call (Rohc_decompress [0x45, 0, 0, 4] 4)
      (log_dump (Pcap_dump (Dumper (dump_filename 0)) \<lparr>caplen = 4, len = 4\<rparr> [0x45, 0, 0, 4])
         (log_dump (Pcap_dump_open (dump_filename 0))
            (log_call Rohc_comp_get_last_packet_info2 ?wA)))"
  let ?wC = "print_rohc_traces ROHC_TRACE_ERROR (''cannot decompress'' @ nl) ?wB"
  have a: "rohc ?pA = 1" "dumpers ?pA = replicate 16 None"
    by (simp_all add: new_process_def)
  have wA: "last_traces_first ?wA = 0" "last_traces_last ?wA = 0"
    "last_traces ?wA = (replicate MAX_LAST_TRACES [])[0 := ''compress'' @ nl]"
    "stderr ?wA = []"
    by (simp_all add: first_trace print_rohc_traces_others new_process_def initial_world_def
        MAX_TRACE_LEN_def nl_def)
  have wB: "last_traces_first ?wB = 0" "last_traces_last ?wB = 0"
    "last_traces ?wB = (replicate MAX_LAST_TRACES [])[0 := ''compress'' @ nl]"
    "stderr ?wB = []"
    using wA by simp_all
  have wC: "last_traces_first ?wC = 0" "last_traces_last ?wC = 1"
    "last_traces ?wC =
       (replicate MAX_LAST_TRACES [])[0 := ''compress'' @ nl, 1 := ''cannot decompress'' @ nl]"
    "stderr ?wC = []"
    using second_trace [of ?wB, OF wB(1,2)] wB(3,4)
    by (simp_all add: print_rohc_traces_others MAX_TRACE_LEN_def nl_def)
  have r: "r = (Inr (-2),
      ?pA\<lparr>dumpers := (replicate 16 None)[0 := Some (Dumper (dump_filename 0))],
           glob := eprintf (''decompression failed'' @ nl) ?wC, cid := 0\<rparr>)"
    unfolding r_def
    unfolding no_decomp_compress
    unfolding no_decomp_dump [OF a]
    unfolding no_decomp_decompress
    by simp
  show "fst r = Inr (-2)" and "cid (snd r) = 0"
    unfolding r by simp_all
  show "stderr (glob (snd r)) = [''decompression failed'' @ nl]"
    unfolding r using wC(4) by simp
  show "last_traces_first (glob (snd r)) = 0"
    unfolding r using wC(1) by simp
  show "last_traces_last (glob (snd r)) = 1"
    unfolding r using wC(2) by simp
  show "last_traces (glob (snd r)) =
      (replicate MAX_LAST_TRACES [])[0 := ''compress'' @ nl, 1 := ''cannot decompress'' @ nl]"
    unfolding r using wC(3) by simp
qed

lemma no_comp_no_dump_compress:
  "compress_decompress LittleEndian no_comp_no_dump_lib \<lparr>caplen = 4, len = 4\<rparr>
     [0x45, 0, 0, 4] (link_len_of DLT_RAW) p =
   (Inl Assert_failed,
    p\<lparr>rohc := rohc p,
      glob := eprintf (''failed to open new dump file '' @ quote @ default_dump @ quote @ nl)
               (log_dump (Pcap_dump_open default_dump)
                 (eprintf (''compression failed'' @ nl)
                   (print_rohc_traces ROHC_TRACE_ERROR (''cannot compress'' @ nl)
                     (log_call (Rohc_compress [0x45, 0, 0, 4] 4) (glob p)))))\<rparr>)"
  by (simp add: compress_decompress_def Let_def no_comp_no_dump_lib_def copy_lib_def
      check_padding_def ETHER_HDR_LEN_def compression_failed_def)

lemma run_no_comp_no_dump:
  fixes r
  defines "r \<equiv> compress_decompress LittleEndian no_comp_no_dump_lib \<lparr>caplen = 4, len = 4\<rparr>
     [0x45, 0, 0, 4] (link_len_of DLT_RAW)
     (new_process\<lparr>cid := 0, glob := printf ''packet #1'' (glob new_process)\<rparr>)"
  shows "fst r = Inl Assert_failed"
    and "stderr (glob (snd r)) =
      [''compression failed'' @ nl,
       ''failed to open new dump file '' @ quote @ default_dump @ quote @ nl]"
    and "last_traces_first (glob (snd r)) = 0"
    and "last_traces_last (glob (snd r)) = 0"
    and "last_traces (glob (snd r)) = (replicate MAX_LAST_TRACES [])[0 := ''cannot compress'' @ nl]"
proof -
  let ?p = "new_process\<lparr>cid := 0, glob := printf ''packet #1'' (glob new_process)\<rparr>"
  let ?wA = "print_rohc_traces ROHC_TRACE_ERROR (''cannot compress'' @ nl)
      (log_call (Rohc_compress [0x45, 0, 0, 4] 4) (glob ?p))"
  have wA: "last_traces_first ?wA = 0" "last_traces_last ?wA = 0"
    "last_traces ?wA = (replicate MAX_LAST_TRACES [])[0 := ''cannot compress'' @ nl]"
    "stderr ?wA = []"
    by (simp_all add: first_trace print_rohc_traces_others new_process_def initial_world_def
        MAX_TRACE_LEN_def nl_def)
  show "fst r = Inl Assert_failed"
    unfolding r_def no_comp_no_dump_compress by simp
  show "stderr (glob (snd r)) =
      [''compression failed'' @ nl,
       ''failed to open new dump file '' @ quote @ default_dump @ quote @ nl]"
    unfolding r_def no_comp_no_dump_compress using wA(4) by simp
  show "last_traces_first (glob (snd r)) = 0"
    unfolding r_def no_comp_no_dump_compress using wA(1) by simp
  show "last_traces_last (glob (snd r)) = 0"
    unfolding r_def no_comp_no_dump_compress using wA(2) by simp
  show "last_traces (glob (snd r)) = (replicate MAX_LAST_TRACES [])[0 := ''cannot compress'' @ nl]"
    unfolding r_def no_comp_no_dump_compress using wA(3) by simp
qed

text \<open>
  C8, the claim as stated fails when the process dies inside the pipeline. The compressor
  rejects the first packet and the fallback dump file cannot be opened: the pipeline has
  printed that the compression failed, and the process dies at the \<open>assert(0)\<close> of
  \<open>compress_decompress\<close>. The error stream holds the two messages of the pipeline and
  nothing else: no line of statistics and none of the traces, although the ring buffer
  holds one.
\<close>

theorem failure_without_statistics_counterexample:
  "fst (sniff_packet LittleEndian no_comp_no_dump_lib (link_len_of DLT_RAW)
          \<lparr>caplen = 4, len = 4\<rparr> [0x45, 0, 0, 4] zero_stats new_process) =
     Some Assert_failed \<and>
   stderr (glob (snd (snd (sniff_packet LittleEndian no_comp_no_dump_lib (link_len_of DLT_RAW)
          \<lparr>caplen = 4, len = 4\<rparr> [0x45, 0, 0, 4] zero_stats new_process)))) =
     [''compression failed'' @ [CHR 0x0A],
      ''failed to open new dump file '' @ [CHR 0x27] @ ''./dump_stream_default.pcap'' @
        [CHR 0x27] @ [CHR 0x0A]] \<and>
   ring_contents (glob (snd (snd (sniff_packet LittleEndian no_comp_no_dump_lib
          (link_len_of DLT_RAW) \<lparr>caplen = 4, len = 4\<rparr> [0x45, 0, 0, 4] zero_stats
          new_process)))) =
     [''cannot compress'' @ [CHR 0x0A]]"
proof -
  let ?cd = "compress_decompress LittleEndian no_comp_no_dump_lib \<lparr>caplen = 4, len = 4\<rparr>
      [0x45, 0, 0, 4] (link_len_of DLT_RAW)
      (new_process\<lparr>cid := 0, glob := printf ''packet #1'' (glob new_process)\<rparr>)"
  have turn: "sniff_packet LittleEndian no_comp_no_dump_lib (link_len_of DLT_RAW)
      \<lparr>caplen = 4, len = 4\<rparr> [0x45, 0, 0, 4] zero_stats new_process =
      (Some Assert_failed, zero_stats\<lparr>counter := 1\<rparr>, snd ?cd)"
    unfolding sniff_packet_def begin_first
    using run_no_comp_no_dump(1) by (simp add: case_prod_unfold)
  have cnt: "ring_count (glob (snd ?cd)) = 1"
    unfolding ring_count_def run_no_comp_no_dump(3,4) by simp
  have ring: "ring_contents (glob (snd ?cd)) = [''cannot compress'' @ [CHR 0x0A]]"
    unfolding ring_contents_def cnt run_no_comp_no_dump(3,5)
    by (simp add: MAX_LAST_TRACES_def nl_def)
  have err: "stderr (glob (snd ?cd)) =
      [''compression failed'' @ [CHR 0x0A],
       ''failed to open new dump file '' @ [CHR 0x27] @ ''./dump_stream_default.pcap'' @
         [CHR 0x27] @ [CHR 0x0A]]"
    unfolding run_no_comp_no_dump(2) by (simp add: nl_def quote_def default_dump_def)
  show ?thesis
    unfolding turn using err ring by simp
qed

text \<open>
  C8, amended. One turn of the loop, whatever the pipeline does with the packet. When
  \<open>compress_decompress\<close> returns a code other than 1, the controller counts the code,
  appends to the error stream the line of statistics (the packet number, the context
  identifier and the six counters, the one of the returned code already incremented) and
  then the content of the ring buffer from the oldest trace to the newest after its
  header line, or the no-trace message when the buffer is empty; the process then dies at
  the \<open>assert(0)\<close>. When the process dies inside \<open>compress_decompress\<close>, because a dump
  file cannot be opened, the controller writes nothing: neither the statistics nor the
  traces. When the code is 1 nothing is written either and the loop goes on. In the two
  cases of failure the loop handles no further packet.
\<close>

theorem failure_prints_statistics_and_traces:
  assumes "traces_wf (glob p)"
    and "compress_decompress bo env header packet link_len_src (snd (begin_packet st p)) =
      (r, p2)"
  shows "sniff_packet bo env link_len_src header packet st p =
     (case r of
        Inl died \<Rightarrow> (Some died, st\<lparr>counter := counter st + 1\<rparr>, p2)
      | Inr ret \<Rightarrow>
          let st2 = st\<lparr>counter := counter st + 1,
                       nb_ok := nb_ok st + (if ret = 1 then 1 else 0),
                       err_comp := err_comp st + (if ret = -1 then 1 else 0),
                       err_decomp := err_decomp st + (if ret = -2 then 1 else 0),
                       nb_ref := nb_ref st + (if ret = 0 then 1 else 0),
                       nb_bad := nb_bad st + (if ret = -3 then 1 else 0),
                       nb_internal_err := nb_internal_err st +
                         (if ret = -1 \<or> ret = -2 \<or> ret = 0 \<or> ret = 1 \<or> ret = -3
                          then 0 else 1)\<rparr>
          in if ret = 1 then (None, st2, p2)
             else (Some Assert_failed, st2,
                   p2\<lparr>glob := (glob p2)\<lparr>stderr := stderr (glob p2) @
                     (''packet #'' @ show_nat (unat (counter st2)) @
                      '', CID '' @ show_nat (unat (cid p2)) @
                      '': stats OK, ERR(COMP), ERR(DECOMP), ERR(REF), ERR(BAD), ERR(INTERNAL)'' @
                      [CHR 0x09] @ ''='' @
                      [CHR 0x09] @ show_nat (unat (nb_ok st2)) @
                      [CHR 0x09] @ show_nat (unat (err_comp st2)) @
                      [CHR 0x09] @ show_nat (unat (err_decomp st2)) @
                      [CHR 0x09] @ show_nat (unat (nb_ref st2)) @
                      [CHR 0x09] @ show_nat (unat (nb_bad st2)) @
                      [CHR 0x09] @ show_nat (unat (nb_internal_err st2)) @ [CHR 0x0A]) #
                     (if ring_count (glob p2) = 0 then [''no trace to display'' @ [CHR 0x0A]]
                      else (''print the last '' @ show_int (int (ring_count (glob p2)) - 1) @
                            '' traces...'' @ [CHR 0x0A]) # ring_contents (glob p2))\<rparr>\<rparr>)) \<and>
     (r \<noteq> Inr 1 \<and> \<not> stop_program (glob p) \<longrightarrow>
        sniff_packets bo env link_len_src ((header, packet) # frames) st p =
        sniff_packet bo env link_len_src header packet st p)"
proof -
  define p1 where "p1 = snd (begin_packet st p)"
  have b: "begin_packet st p = (st\<lparr>counter := counter st + 1\<rparr>, p1)"
    using begin_packet_stats [of st p] by (simp add: p1_def prod_eq_iff)
  have c: "compress_decompress bo env header packet link_len_src p1 = (r, p2)"
    using assms(2) by (simp add: p1_def)
  have "traces_wf (glob p1)"
    using assms(1) by (simp add: p1_def begin_packet_traces_wf)
  then have "traces_wf (glob (snd (compress_decompress bo env header packet link_len_src p1)))"
    by (rule compress_decompress_traces_wf)
  then have wf2: "traces_wf (glob p2)"
    by (simp add: c)
  have printed: "print_last_traces (eprintf line (glob p2)) =
      (glob p2)\<lparr>stderr := stderr (glob p2) @ line #
         (if ring_count (glob p2) = 0 then [''no trace to display'' @ [CHR 0x0A]]
          else (''print the last '' @ show_int (int (ring_count (glob p2)) - 1) @
                '' traces...'' @ [CHR 0x0A]) # ring_contents (glob p2))\<rparr>" for line
  proof -
    have "traces_wf (eprintf line (glob p2))"
      using wf2 by simp
    then show ?thesis
      by (simp add: print_last_traces_eq ring_count_def ring_contents_def eprintf_def
          print_the_last_def nl_def)
  qed
  have one: "sniff_packet bo env link_len_src header packet st p =
     (case r of
        Inl died \<Rightarrow> (Some died, st\<lparr>counter := counter st + 1\<rparr>, p2)
      | Inr ret \<Rightarrow>
          let st2 = st\<lparr>counter := counter st + 1,
                       nb_ok := nb_ok st + (if ret = 1 then 1 else 0),
                       err_comp := err_comp st + (if ret = -1 then 1 else 0),
                       err_decomp := err_decomp st + (if ret = -2 then 1 else 0),
                       nb_ref := nb_ref st + (if ret = 0 then 1 else 0),
                       nb_bad := nb_bad st + (if ret = -3 then 1 else 0),
                       nb_internal_err := nb_internal_err st +
                         (if ret = -1 \<or> ret = -2 \<or> ret = 0 \<or> ret = 1 \<or> ret = -3
                          then 0 else 1)\<rparr>
          in if ret = 1 then (None, st2, p2)
             else (Some Assert_failed, st2,
                   p2\<lparr>glob := (glob p2)\<lparr>stderr := stderr (glob p2) @
                     (''packet #'' @ show_nat (unat (counter st2)) @
                      '', CID '' @ show_nat (unat (cid p2)) @
                      '': stats OK, ERR(COMP), ERR(DECOMP), ERR(REF), ERR(BAD), ERR(INTERNAL)'' @
                      [CHR 0x09] @ ''='' @
                      [CHR 0x09] @ show_nat (unat (nb_ok st2)) @
                      [CHR 0x09] @ show_nat (unat (err_comp st2)) @
                      [CHR 0x09] @ show_nat (unat (err_decomp st2)) @
                      [CHR 0x09] @ show_nat (unat (nb_ref st2)) @
                      [CHR 0x09] @ show_nat (unat (nb_bad st2)) @
                      [CHR 0x09] @ show_nat (unat (nb_internal_err st2)) @ [CHR 0x0A]) #
                     (if ring_count (glob p2) = 0 then [''no trace to display'' @ [CHR 0x0A]]
                      else (''print the last '' @ show_int (int (ring_count (glob p2)) - 1) @
                            '' traces...'' @ [CHR 0x0A]) # ring_contents (glob p2))\<rparr>\<rparr>))"
  proof (cases r)
    case (Inl died)
    then show ?thesis
      by (simp add: sniff_packet_def b c)
  next
    case (Inr ret)
    show ?thesis
    proof (cases "ret = 1")
      case True
      then show ?thesis
        by (simp add: sniff_packet_def b c Inr count_result_def)
    next
      case False
      define st2 where "st2 = count_result ret (st\<lparr>counter := counter st + 1\<rparr>)"
      have turn: "sniff_packet bo env link_len_src header packet st p =
          (Some Assert_failed, st2,
           p2\<lparr>glob := print_last_traces (eprintf (stats_line st2 (cid p2)) (glob p2))\<rparr>)"
        using False by (simp add: sniff_packet_def b c Inr st2_def Let_def)
      have st2: "st2 = st\<lparr>counter := counter st + 1,
          nb_ok := nb_ok st + (if ret = 1 then 1 else 0),
          err_comp := err_comp st + (if ret = -1 then 1 else 0),
          err_decomp := err_decomp st + (if ret = -2 then 1 else 0),
          nb_ref := nb_ref st + (if ret = 0 then 1 else 0),
          nb_bad := nb_bad st + (if ret = -3 then 1 else 0),
          nb_internal_err := nb_internal_err st +
            (if ret = -1 \<or> ret = -2 \<or> ret = 0 \<or> ret = 1 \<or> ret = -3 then 0 else 1)\<rparr>"
        unfolding st2_def by (subst count_result_fields) simp
      have line: "stats_line st2 (cid p2) =
          ''packet #'' @ show_nat (unat (counter st2)) @
          '', CID '' @ show_nat (unat (cid p2)) @
          '': stats OK, ERR(COMP), ERR(DECOMP), ERR(REF), ERR(BAD), ERR(INTERNAL)'' @
          [CHR 0x09] @ ''='' @
          [CHR 0x09] @ show_nat (unat (nb_ok st2)) @
          [CHR 0x09] @ show_nat (unat (err_comp st2)) @
          [CHR 0x09] @ show_nat (unat (err_decomp st2)) @
          [CHR 0x09] @ show_nat (unat (nb_ref st2)) @
          [CHR 0x09] @ show_nat (unat (nb_bad st2)) @
          [CHR 0x09] @ show_nat (unat (nb_internal_err st2)) @ [CHR 0x0A]"
        by (simp add: stats_line_def tab_def nl_def)
      show ?thesis
        unfolding turn printed line
        unfolding Inr sum.case Let_def st2 [symmetric]
        using False by simp
    qed
  qed
  have two: "sniff_packets bo env link_len_src ((header, packet) # frames) st p =
      sniff_packet bo env link_len_src header packet st p"
    if "r \<noteq> Inr 1" and "\<not> stop_program (glob p)"
  proof (cases r)
    case (Inl died)
    then show ?thesis
      using that(2) by (simp add: one)
  next
    case (Inr ret)
    then have "ret \<noteq> 1"
      using that(1) by simp
    then show ?thesis
      using that(2) by (simp add: one Inr Let_def)
  qed
  show ?thesis
    using one two by blast
qed

theorem failure_prints_statistics_and_traces_witness:
  "traces_wf (glob new_process) \<and>
   \<not> stop_program (glob new_process) \<and>
   fst (compress_decompress LittleEndian no_decomp_lib \<lparr>caplen = 4, len = 4\<rparr> [0x45, 0, 0, 4]
          (link_len_of DLT_RAW) (snd (begin_packet zero_stats new_process))) = Inr (-2) \<and>
   (Inr (-2) :: ending + int) \<noteq> Inr 1 \<and>
   fst (sniff_packet LittleEndian no_decomp_lib (link_len_of DLT_RAW) \<lparr>caplen = 4, len = 4\<rparr>
          [0x45, 0, 0, 4] zero_stats new_process) = Some Assert_failed \<and>
   fst (snd (sniff_packet LittleEndian no_decomp_lib (link_len_of DLT_RAW)
          \<lparr>caplen = 4, len = 4\<rparr> [0x45, 0, 0, 4] zero_stats new_process)) =
     zero_stats\<lparr>counter := 1, err_decomp := 1\<rparr> \<and>
   stderr (glob (snd (snd (sniff_packet LittleEndian no_decomp_lib (link_len_of DLT_RAW)
          \<lparr>caplen = 4, len = 4\<rparr> [0x45, 0, 0, 4] zero_stats new_process)))) =
     [''decompression failed'' @ [CHR 0x0A],
      ''packet #1, CID 0: stats OK, ERR(COMP), ERR(DECOMP), ERR(REF), ERR(BAD), ERR(INTERNAL)'' @
        [CHR 0x09] @ ''='' @ [CHR 0x09] @ ''0'' @ [CHR 0x09] @ ''0'' @ [CHR 0x09] @ ''1'' @
        [CHR 0x09] @ ''0'' @ [CHR 0x09] @ ''0'' @ [CHR 0x09] @ ''0'' @ [CHR 0x0A],
      ''print the last 1 traces...'' @ [CHR 0x0A],
      ''compress'' @ [CHR 0x0A],
      ''cannot decompress'' @ [CHR 0x0A]] \<and>
   sniff_packets LittleEndian no_decomp_lib (link_len_of DLT_RAW)
     [(\<lparr>caplen = 4, len = 4\<rparr>, [0x45, 0, 0, 4]), (\<lparr>caplen = 4, len = 4\<rparr>, [0x45, 0, 0, 4])]
     zero_stats new_process =
   sniff_packet LittleEndian no_decomp_lib (link_len_of DLT_RAW) \<lparr>caplen = 4, len = 4\<rparr>
     [0x45, 0, 0, 4] zero_stats new_process \<and>
   fst (compress_decompress LittleEndian no_comp_no_dump_lib \<lparr>caplen = 4, len = 4\<rparr>
          [0x45, 0, 0, 4] (link_len_of DLT_RAW) (snd (begin_packet zero_stats new_process))) =
     Inl Assert_failed \<and>
   (Inl Assert_failed :: ending + int) \<noteq> Inr 1 \<and>
   sniff_packet LittleEndian no_comp_no_dump_lib (link_len_of DLT_RAW) \<lparr>caplen = 4, len = 4\<rparr>
     [0x45, 0, 0, 4] zero_stats new_process =
   (Some Assert_failed, zero_stats\<lparr>counter := 1\<rparr>,
    snd (compress_decompress LittleEndian no_comp_no_dump_lib \<lparr>caplen = 4, len = 4\<rparr>
          [0x45, 0, 0, 4] (link_len_of DLT_RAW) (snd (begin_packet zero_stats new_process)))) \<and>
   sniff_packets LittleEndian no_comp_no_dump_lib (link_len_of DLT_RAW)
     [(\<lparr>caplen = 4, len = 4\<rparr>, [0x45, 0, 0, 4]), (\<lparr>caplen = 4, len = 4\<rparr>, [0x45, 0, 0, 4])]
     zero_stats new_process =
   sniff_packet LittleEndian no_comp_no_dump_lib (link_len_of DLT_RAW) \<lparr>caplen = 4, len = 4\<rparr>
     [0x45, 0, 0, 4] zero_stats new_process \<and>
   fst (compress_decompress LittleEndian copy_lib \<lparr>caplen = 50, len = 60\<rparr> (replicate 50 0)
          ETHER_HDR_LEN (snd (begin_packet zero_stats new_process))) = Inr (-3) \<and>
   (Inr (-3) :: ending + int) \<noteq> Inr 1 \<and>
   fst (sniff_packet LittleEndian copy_lib ETHER_HDR_LEN \<lparr>caplen = 50, len = 60\<rparr>
          (replicate 50 0) zero_stats new_process) = Some Assert_failed \<and>
   stderr (glob (snd (snd (sniff_packet LittleEndian copy_lib ETHER_HDR_LEN
          \<lparr>caplen = 50, len = 60\<rparr> (replicate 50 0) zero_stats new_process)))) =
     [''bad PCAP packet (len = 60, caplen = 50)'' @ [CHR 0x0A],
      ''packet #1, CID 0: stats OK, ERR(COMP), ERR(DECOMP), ERR(REF), ERR(BAD), ERR(INTERNAL)'' @
        [CHR 0x09] @ ''='' @ [CHR 0x09] @ ''0'' @ [CHR 0x09] @ ''0'' @ [CHR 0x09] @ ''0'' @
        [CHR 0x09] @ ''0'' @ [CHR 0x09] @ ''1'' @ [CHR 0x09] @ ''0'' @ [CHR 0x0A],
      ''no trace to display'' @ [CHR 0x0A]]"
proof -
  let ?h = "\<lparr>caplen = 4, len = 4\<rparr> :: pcap_pkthdr"
  let ?pkt = "[0x45, 0, 0, 4] :: byte list"
  let ?p1 = "snd (begin_packet zero_stats new_process)"
  let ?cd = "compress_decompress LittleEndian no_decomp_lib ?h ?pkt (link_len_of DLT_RAW) ?p1"
  let ?cd' = "compress_decompress LittleEndian no_comp_no_dump_lib ?h ?pkt
      (link_len_of DLT_RAW) ?p1"
  have p1: "?p1 = new_process\<lparr>cid := 0, glob := printf ''packet #1'' (glob new_process)\<rparr>"
    by (simp add: begin_first)
  have wf: "traces_wf (glob new_process)"
    by (simp add: new_process_def initial_world_def traces_wf_def)
  have go: "\<not> stop_program (glob new_process)"
    by (simp add: new_process_def initial_world_def)
  have ret: "fst ?cd = Inr (-2)" and c: "cid (snd ?cd) = 0"
    and e: "stderr (glob (snd ?cd)) = [''decompression failed'' @ nl]"
    and cur: "last_traces_first (glob (snd ?cd)) = 0" "last_traces_last (glob (snd ?cd)) = 1"
    and slots: "last_traces (glob (snd ?cd)) =
      (replicate MAX_LAST_TRACES [])[0 := ''compress'' @ nl, 1 := ''cannot decompress'' @ nl]"
    unfolding p1 by (rule run_no_decomp)+
  have died: "fst ?cd' = Inl Assert_failed"
    unfolding p1 by (rule run_no_comp_no_dump)
  have run: "?cd = (Inr (-2), snd ?cd)"
    using ret by (simp add: prod_eq_iff)
  have run': "?cd' = (Inl Assert_failed, snd ?cd')"
    using died by (simp add: prod_eq_iff)
  have ne: "(Inr (-2) :: ending + int) \<noteq> Inr 1" and ne': "(Inl Assert_failed :: ending + int) \<noteq> Inr 1"
    by simp_all
  have cnt: "ring_count (glob (snd ?cd)) = 2"
    unfolding ring_count_def cur by (simp add: MAX_LAST_TRACES_def)
  have "[0 ..< 2] = [0, Suc 0]"
    by (simp add: upt_rec)
  then have con: "ring_contents (glob (snd ?cd)) =
      [''compress'' @ [CHR 0x0A], ''cannot decompress'' @ [CHR 0x0A]]"
    unfolding ring_contents_def cnt cur slots by (simp add: MAX_LAST_TRACES_def nl_def)
  note inst = failure_prints_statistics_and_traces [OF wf run,
      of "[(\<lparr>caplen = 4, len = 4\<rparr>, [0x45, 0, 0, 4])]", unfolded sum.case Let_def]
  note inst' = failure_prints_statistics_and_traces [OF wf run',
      of "[(\<lparr>caplen = 4, len = 4\<rparr>, [0x45, 0, 0, 4])]", unfolded sum.case]
  note one = inst [THEN conjunct1]
  have dead: "fst (sniff_packet LittleEndian no_decomp_lib (link_len_of DLT_RAW) ?h ?pkt
      zero_stats new_process) = Some Assert_failed"
    unfolding one by simp
  have st: "fst (snd (sniff_packet LittleEndian no_decomp_lib (link_len_of DLT_RAW) ?h ?pkt
      zero_stats new_process)) = zero_stats\<lparr>counter := 1, err_decomp := 1\<rparr>"
    unfolding one by (simp add: zero_stats_def)
  have err: "stderr (glob (snd (snd (sniff_packet LittleEndian no_decomp_lib
      (link_len_of DLT_RAW) ?h ?pkt zero_stats new_process)))) =
     [''decompression failed'' @ [CHR 0x0A],
      ''packet #1, CID 0: stats OK, ERR(COMP), ERR(DECOMP), ERR(REF), ERR(BAD), ERR(INTERNAL)'' @
        [CHR 0x09] @ ''='' @ [CHR 0x09] @ ''0'' @ [CHR 0x09] @ ''0'' @ [CHR 0x09] @ ''1'' @
        [CHR 0x09] @ ''0'' @ [CHR 0x09] @ ''0'' @ [CHR 0x09] @ ''0'' @ [CHR 0x0A],
      ''print the last 1 traces...'' @ [CHR 0x0A],
      ''compress'' @ [CHR 0x0A],
      ''cannot decompress'' @ [CHR 0x0A]]"
    unfolding one
    using c e cnt con
    by (simp add: zero_stats_def nl_def show_int_def show_nat.simps digit_char_def)
  have stop: "sniff_packets LittleEndian no_decomp_lib (link_len_of DLT_RAW)
      [(?h, ?pkt), (?h, ?pkt)] zero_stats new_process =
      sniff_packet LittleEndian no_decomp_lib (link_len_of DLT_RAW) ?h ?pkt zero_stats new_process"
    using inst [THEN conjunct2] ne go by blast
  have one': "sniff_packet LittleEndian no_comp_no_dump_lib (link_len_of DLT_RAW) ?h ?pkt
      zero_stats new_process = (Some Assert_failed, zero_stats\<lparr>counter := 1\<rparr>, snd ?cd')"
    using inst' [THEN conjunct1] by (simp add: zero_stats_def)
  have stop': "sniff_packets LittleEndian no_comp_no_dump_lib (link_len_of DLT_RAW)
      [(?h, ?pkt), (?h, ?pkt)] zero_stats new_process =
      sniff_packet LittleEndian no_comp_no_dump_lib (link_len_of DLT_RAW) ?h ?pkt
        zero_stats new_process"
    using inst' [THEN conjunct2] ne' go by blast
  let ?g = "\<lparr>caplen = 50, len = 60\<rparr> :: pcap_pkthdr"
  let ?cm = "compress_decompress LittleEndian copy_lib ?g (replicate 50 0) ETHER_HDR_LEN ?p1"
  have mal: "len ?g \<le> word_of_int ETHER_HDR_LEN \<or> len ?g \<noteq> caplen ?g"
    by simp
  note cm = compress_decompress_malformed [OF mal, of LittleEndian copy_lib "replicate 50 0" ?p1]
  have msg: "''bad PCAP packet (len = '' @ show_int (sint (len ?g)) @ '', caplen = '' @
      show_int (sint (caplen ?g)) @ '')'' @ nl =
      ''bad PCAP packet (len = 60, caplen = 50)'' @ [CHR 0x0A]"
    by (simp add: show_int_def show_nat.simps digit_char_def nl_def)
  have bad: "fst ?cm = Inr (-3)"
    by (simp add: cm)
  have m: "cid (snd ?cm) = 0"
    "stderr (glob (snd ?cm)) = [''bad PCAP packet (len = 60, caplen = 50)'' @ [CHR 0x0A]]"
    "ring_count (glob (snd ?cm)) = 0"
    unfolding cm
    unfolding msg p1
    by (simp_all add: new_process_def initial_world_def ring_count_def)
  have run'': "?cm = (Inr (-3), snd ?cm)"
    using bad by (simp add: prod_eq_iff)
  have ne'': "(Inr (-3) :: ending + int) \<noteq> Inr 1"
    by simp
  note inst'' = failure_prints_statistics_and_traces [OF wf run'',
      of "[]", unfolded sum.case Let_def]
  note one'' = inst'' [THEN conjunct1]
  have dead'': "fst (sniff_packet LittleEndian copy_lib ETHER_HDR_LEN ?g (replicate 50 0)
      zero_stats new_process) = Some Assert_failed"
    unfolding one'' by simp
  have err'': "stderr (glob (snd (snd (sniff_packet LittleEndian copy_lib ETHER_HDR_LEN ?g
      (replicate 50 0) zero_stats new_process)))) =
     [''bad PCAP packet (len = 60, caplen = 50)'' @ [CHR 0x0A],
      ''packet #1, CID 0: stats OK, ERR(COMP), ERR(DECOMP), ERR(REF), ERR(BAD), ERR(INTERNAL)'' @
        [CHR 0x09] @ ''='' @ [CHR 0x09] @ ''0'' @ [CHR 0x09] @ ''0'' @ [CHR 0x09] @ ''0'' @
        [CHR 0x09] @ ''0'' @ [CHR 0x09] @ ''1'' @ [CHR 0x09] @ ''0'' @ [CHR 0x0A],
      ''no trace to display'' @ [CHR 0x0A]]"
    unfolding one''
    using m
    by (simp add: zero_stats_def show_nat.simps digit_char_def)
  show ?thesis
    by (intro conjI wf go ret ne dead st err stop died ne' one' stop' bad ne'' dead'' err'')
qed

end
